theory Spec2Isabelle
  imports Main "HOL-Library.Word" "HOL-Library.AList"
begin

unbundle bit_operations_syntax

chapter \<open>Model\<close>

text \<open>
  A shallow embedding of the parts of the runtime substrate that the properties below
  speak about: the time conversions of \<^verbatim>\<open>Python/pytime.c\<close>, the hash-secret
  initialisation of \<^verbatim>\<open>Python/random.c\<close>, the cycle collector of
  \<^verbatim>\<open>Modules/gcmodule.c\<close> and the runtime, thread-state, frame-stack and
  Ensure/Release code of \<^verbatim>\<open>Python/pystate.c\<close>.  C identifiers keep their
  names; a leading underscore is dropped, since an Isabelle name cannot start with one.
\<close>

text \<open>
  \<^verbatim>\<open>Py_FatalError\<close> aborts the process; a function that can reach it returns a sum
  whose left side is the fatal error.  An \<^verbatim>\<open>assert\<close> is compiled out
  (\<^verbatim>\<open>NDEBUG\<close>), except where a property is about the assertion itself: there the
  failing assertion is a result of the model.
\<close>

datatype fatal = Py_FatalError string

section \<open>Time conversions (\<^verbatim>\<open>Python/pytime.c\<close>)\<close>












section \<open>Hash secret (\<^verbatim>\<open>Python/random.c\<close>)\<close>

text \<open>
  \<^verbatim>\<open>lcg_urandom\<close> works on an \<^verbatim>\<open>unsigned int\<close> (32 bits, wrapping) and writes
  \<^verbatim>\<open>size\<close> bytes; the model returns the bytes written, in order.
\<close>

fun lcg_urandom :: "32 word \<Rightarrow> nat \<Rightarrow> 8 word list" where
  "lcg_urandom x 0 = []"
| "lcg_urandom x (Suc n) =
     (let x1 = x * 214013;
          x2 = x1 + 2531011
      in ucast (drop_bit 16 x2 AND 0xff) # lcg_urandom x2 n)"

text \<open>The generator as the comment above \<^verbatim>\<open>lcg_urandom\<close> writes it, on natural numbers.\<close>

fun lcg_state :: "nat \<Rightarrow> nat \<Rightarrow> nat" where
  "lcg_state x0 0 = x0"
| "lcg_state x0 (Suc n) = (lcg_state x0 n * 214013 + 2531011) mod 2 ^ 32"

definition lcg_byte :: "nat \<Rightarrow> nat" where
  "lcg_byte x = (x div 2 ^ 16) mod 2 ^ 8"

record hash_state =
  HashSecret_Initialized :: bool
  HashSecret :: "8 word list"

text \<open>
  \<^verbatim>\<open>_PyRandom_Init\<close>.  The size of the secret, the value of the environment variable
  (\<open>None\<close> when unset), the C library's \<^verbatim>\<open>strtoul\<close> and the operating system's
  entropy source are parameters.  \<^verbatim>\<open>strtoul\<close> yields the parsed
  \<^verbatim>\<open>unsigned long\<close> (64 bits here), the unparsed rest of the string at
  \<^verbatim>\<open>endptr\<close>, and whether \<^verbatim>\<open>errno\<close> is \<^verbatim>\<open>ERANGE\<close> afterwards.
\<close>

definition ULONG_MAX :: "64 word" where
  "ULONG_MAX = 18446744073709551615"

definition PyRandom_Init ::
  "nat \<Rightarrow> string option \<Rightarrow> (string \<Rightarrow> 64 word \<times> string \<times> bool) \<Rightarrow> (nat \<Rightarrow> 8 word list)
     \<Rightarrow> hash_state \<Rightarrow> fatal + hash_state" where
  "PyRandom_Init secret_size env strtoul os_urandom st =
     (if HashSecret_Initialized st then Inr st
      else
        let st1 = st\<lparr>HashSecret_Initialized := True\<rparr> in
        case env of
          None \<Rightarrow> Inr (st1\<lparr>HashSecret := os_urandom secret_size\<rparr>)
        | Some e \<Rightarrow>
            if e \<noteq> [] \<and> e \<noteq> ''random'' then
              (case strtoul e of (seed, endptr, erange) \<Rightarrow>
                 if endptr \<noteq> [] \<or> seed > 4294967295 \<or> (erange \<and> seed = ULONG_MAX)
                 then Inl (Py_FatalError ''PYTHONHASHSEED must be random or an integer in range [0; 4294967295]'')
                 else if seed = 0
                 then Inr (st1\<lparr>HashSecret := replicate secret_size 0\<rparr>)
                 else Inr (st1\<lparr>HashSecret := lcg_urandom (ucast seed) secret_size\<rparr>))
            else Inr (st1\<lparr>HashSecret := os_urandom secret_size\<rparr>))"

section \<open>Cycle collector (\<^verbatim>\<open>Modules/gcmodule.c\<close>)\<close>

subsection \<open>Objects and lists\<close>

text \<open>
  Modelled from the spec: the three markers of \<^verbatim>\<open>gc_refs\<close> are macros of a header
  outside the sources at hand.  The specification says that \<^verbatim>\<open>gc_refs\<close> is
  \<^verbatim>\<open>UNTRACKED\<close>, \<^verbatim>\<open>REACHABLE\<close>, \<^verbatim>\<open>TENTATIVELY_UNREACHABLE\<close> or a
  non-negative transient count, so the markers are three different negative numbers.
\<close>

definition GC_UNTRACKED :: int where "GC_UNTRACKED = - 2"
definition GC_REACHABLE :: int where "GC_REACHABLE = - 3"
definition GC_TENTATIVELY_UNREACHABLE :: int where "GC_TENTATIVELY_UNREACHABLE = - 4"

text \<open>
  The store is the sequence of all objects, an object's address being its index.  Of an
  object the collector sees: whether its type has a GC head (\<^verbatim>\<open>PyObject_IS_GC\<close>),
  \<^verbatim>\<open>ob_refcnt\<close>, \<^verbatim>\<open>gc_refs\<close>, the objects its \<^verbatim>\<open>tp_traverse\<close> visits (in
  order, with repetitions), whether it is an old-style instance or of a heap type, whether
  the \<^verbatim>\<open>__del__\<close> lookup respectively \<^verbatim>\<open>tp_del\<close> is non-NULL, and whether
  \<^verbatim>\<open>tp_clear\<close> is non-NULL.  \<open>freed\<close> marks memory given back to the allocator.
  An address outside the store is a dangling pointer; the visitors ignore it.
\<close>

datatype ob_kind = Instance | Heaptype | Statictype

record gc_object =
  tp_is_gc :: bool
  ob_refcnt :: int
  gc_refs :: int
  referents :: "nat list"
  ob_kind :: ob_kind
  has_del :: bool
  tp_clear :: bool
  freed :: bool

type_synonym gc_heap = "gc_object list"

definition PyObject_IS_GC :: "gc_heap \<Rightarrow> nat \<Rightarrow> bool" where
  "PyObject_IS_GC h op = (op < length h \<and> tp_is_gc (h ! op))"

definition IS_TRACKED :: "gc_heap \<Rightarrow> nat \<Rightarrow> bool" where
  "IS_TRACKED h op = (gc_refs (h ! op) \<noteq> GC_UNTRACKED)"

definition set_gc_refs :: "nat \<Rightarrow> int \<Rightarrow> gc_heap \<Rightarrow> gc_heap" where
  "set_gc_refs gc v h = h[gc := (h ! gc)\<lparr>gc_refs := v\<rparr>]"

text \<open>
  A GC list is circular and doubly linked through the objects' heads, so an object is on
  at most one list and \<^verbatim>\<open>gc_list_remove\<close> needs no list argument.  The model keeps
  a list as the sequence of its objects from \<^verbatim>\<open>gc_next\<close> of the head onwards;
  \<^verbatim>\<open>gc_list_remove\<close> is applied to every list the object could be on.
\<close>

definition gc_list_remove :: "nat \<Rightarrow> nat list \<Rightarrow> nat list" where
  "gc_list_remove node list = removeAll node list"

definition gc_list_append :: "nat \<Rightarrow> nat list \<Rightarrow> nat list" where
  "gc_list_append node list = list @ [node]"

subsection \<open>\<^verbatim>\<open>update_refs\<close>, \<^verbatim>\<open>subtract_refs\<close>, \<^verbatim>\<open>move_unreachable\<close>\<close>

text \<open>
  \<^verbatim>\<open>traverse(op, visit, arg)\<close> calls \<^verbatim>\<open>visit\<close> on each referent of
  \<^verbatim>\<open>op\<close>: a \<open>fold\<close> over \<open>referents\<close>.  All visitors here return 0, so a
  traversal never stops early.
\<close>

definition update_refs :: "nat list \<Rightarrow> gc_heap \<Rightarrow> gc_heap" where
  "update_refs containers h = fold (\<lambda>gc h. set_gc_refs gc (ob_refcnt (h ! gc)) h) containers h"

definition visit_decref :: "nat \<Rightarrow> gc_heap \<Rightarrow> gc_heap" where
  "visit_decref op h =
     (if PyObject_IS_GC h op then
        (if gc_refs (h ! op) > 0 then set_gc_refs op (gc_refs (h ! op) - 1) h else h)
      else h)"

definition subtract_refs :: "nat list \<Rightarrow> gc_heap \<Rightarrow> gc_heap" where
  "subtract_refs containers h =
     fold (\<lambda>gc h. fold visit_decref (referents (h ! gc)) h) containers h"

text \<open>
  \<^verbatim>\<open>move_unreachable\<close> walks \<^verbatim>\<open>young\<close> with a cursor while
  \<^verbatim>\<open>visit_reachable\<close> appends to its tail.  The state of the walk is the store, the
  part of \<^verbatim>\<open>young\<close> to the left of the cursor's successor (\<open>scanned\<close>), the part
  to its right (\<open>rest\<close>), and \<^verbatim>\<open>unreachable\<close>.
\<close>

type_synonym mu_state = "gc_heap \<times> nat list \<times> nat list \<times> nat list"

definition visit_reachable :: "nat \<Rightarrow> mu_state \<Rightarrow> mu_state" where
  "visit_reachable op s =
     (case s of (h, scanned, rest, unreachable) \<Rightarrow>
        if PyObject_IS_GC h op then
          (if gc_refs (h ! op) = 0 then (set_gc_refs op 1 h, scanned, rest, unreachable)
           else if gc_refs (h ! op) = GC_TENTATIVELY_UNREACHABLE then
             (set_gc_refs op 1 h,
              gc_list_remove op scanned,
              gc_list_append op (gc_list_remove op rest),
              gc_list_remove op unreachable)
           else s)
        else s)"

text \<open>
  The walk ends because every step lowers this measure: an object whose \<^verbatim>\<open>gc_refs\<close>
  is 0 or \<^verbatim>\<open>GC_TENTATIVELY_UNREACHABLE\<close> weighs 2, an object still to the right of the
  cursor weighs 1.
\<close>

definition gc_weight1 :: "int \<Rightarrow> nat" where
  "gc_weight1 v = (if v = 0 \<or> v = GC_TENTATIVELY_UNREACHABLE then 2 else 0)"

definition gc_weight :: "gc_heap \<Rightarrow> nat" where
  "gc_weight h = sum_list (map (\<lambda>ob. gc_weight1 (gc_refs ob)) h)"

definition mu_measure :: "mu_state \<Rightarrow> nat" where
  "mu_measure s = (case s of (h, scanned, rest, unreachable) \<Rightarrow> gc_weight h + length rest)"

lemma gc_weight_set:
  assumes "g < length h"
  shows "gc_weight (set_gc_refs g v h) + gc_weight1 (gc_refs (h ! g)) = gc_weight h + gc_weight1 v"
proof -
  let ?f = "\<lambda>ob. gc_weight1 (gc_refs ob)"
  have "map ?f (set_gc_refs g v h) = (map ?f h)[g := gc_weight1 v]"
    by (simp add: set_gc_refs_def map_update)
  moreover have "(map ?f h) ! g \<le> sum_list (map ?f h)"
    using assms by (intro elem_le_sum_list) simp
  ultimately show ?thesis
    using assms by (simp add: gc_weight_def sum_list_update)
qed

lemma set_gc_refs_beyond: "\<not> g < length h \<Longrightarrow> set_gc_refs g v h = h"
  by (simp add: set_gc_refs_def not_less list_update_beyond)

lemma gc_weight_set_le:
  "gc_weight1 v \<le> gc_weight1 (gc_refs (h ! g)) \<Longrightarrow> gc_weight (set_gc_refs g v h) \<le> gc_weight h"
  using gc_weight_set [of g h v] by (cases "g < length h") (simp_all add: set_gc_refs_beyond)

lemma length_gc_list_remove: "length (gc_list_remove x xs) \<le> length xs"
  by (simp add: gc_list_remove_def)

lemma visit_reachable_measure: "mu_measure (visit_reachable op s) \<le> mu_measure s"
proof -
  obtain h scanned rest unreachable where s: "s = (h, scanned, rest, unreachable)"
    by (cases s) auto
  show ?thesis
  proof (cases "PyObject_IS_GC h op \<and> (gc_refs (h ! op) = 0 \<or> gc_refs (h ! op) = GC_TENTATIVELY_UNREACHABLE)")
    case False
    then show ?thesis
      by (auto simp: s visit_reachable_def)
  next
    case True
    then have lt: "op < length h" and w: "gc_weight1 (gc_refs (h ! op)) = 2"
      by (auto simp: PyObject_IS_GC_def gc_weight1_def)
    have "gc_weight1 1 = 0"
      by (simp add: gc_weight1_def GC_TENTATIVELY_UNREACHABLE_def)
    with gc_weight_set [OF lt, of 1] w have "gc_weight (set_gc_refs op 1 h) + 2 = gc_weight h"
      by simp
    moreover have "length (gc_list_append op (gc_list_remove op rest)) \<le> length rest + 1"
      using length_gc_list_remove [of op rest] by (simp add: gc_list_append_def)
    ultimately show ?thesis
      using True by (auto simp: s visit_reachable_def mu_measure_def)
  qed
qed

lemma fold_visit_reachable_measure: "mu_measure (fold visit_reachable ops s) \<le> mu_measure s"
proof (induction ops arbitrary: s)
  case Nil
  then show ?case by simp
next
  case (Cons a ops)
  then show ?case
    using visit_reachable_measure le_trans by (metis fold_simps(2))
qed

function move_unreachable :: "gc_heap \<Rightarrow> nat list \<Rightarrow> nat list \<Rightarrow> nat list \<Rightarrow> gc_heap \<times> nat list \<times> nat list" where
  "move_unreachable h scanned [] unreachable = (h, scanned, unreachable)"
| "move_unreachable h scanned (gc # rest) unreachable =
     (if gc_refs (h ! gc) \<noteq> 0 then
        (case fold visit_reachable (referents (h ! gc))
                (set_gc_refs gc GC_REACHABLE h, scanned @ [gc], rest, unreachable) of
           (h2, scanned2, rest2, unreachable2) \<Rightarrow> move_unreachable h2 scanned2 rest2 unreachable2)
      else
        move_unreachable (set_gc_refs gc GC_TENTATIVELY_UNREACHABLE h) scanned rest
          (gc_list_append gc unreachable))"
  by pat_completeness auto
termination
proof (relation "measure (\<lambda>(h, scanned, rest, unreachable). mu_measure (h, scanned, rest, unreachable))", goal_cases)
  case 1
  show ?case by simp
next
  case (2 h scanned gc rest unreachable h2 t scanned2 u rest2 unreachable2)
  have "gc_weight1 GC_REACHABLE = 0"
    by (simp add: gc_weight1_def GC_REACHABLE_def GC_TENTATIVELY_UNREACHABLE_def)
  then have "gc_weight (set_gc_refs gc GC_REACHABLE h) \<le> gc_weight h"
    by (intro gc_weight_set_le) simp
  then have "mu_measure (set_gc_refs gc GC_REACHABLE h, scanned @ [gc], rest, unreachable)
             < mu_measure (h, scanned, gc # rest, unreachable)"
    by (simp add: mu_measure_def)
  moreover have "mu_measure (h2, scanned2, rest2, unreachable2)
             \<le> mu_measure (set_gc_refs gc GC_REACHABLE h, scanned @ [gc], rest, unreachable)"
    using fold_visit_reachable_measure [of "referents (h ! gc)"
        "(set_gc_refs gc GC_REACHABLE h, scanned @ [gc], rest, unreachable)"] 2
    by simp
  ultimately show ?case by simp
next
  case (3 h scanned gc rest unreachable)
  then have "gc_weight1 GC_TENTATIVELY_UNREACHABLE \<le> gc_weight1 (gc_refs (h ! gc))"
    by (simp add: gc_weight1_def)
  then have "gc_weight (set_gc_refs gc GC_TENTATIVELY_UNREACHABLE h) \<le> gc_weight h"
    by (rule gc_weight_set_le)
  then show ?case
    by (simp add: mu_measure_def)
qed

subsection \<open>Finalizers\<close>

definition PyInstance_Check :: "gc_heap \<Rightarrow> nat \<Rightarrow> bool" where
  "PyInstance_Check h op = (ob_kind (h ! op) = Instance)"

definition has_finalizer :: "gc_heap \<Rightarrow> nat \<Rightarrow> bool" where
  "has_finalizer h op =
     (if PyInstance_Check h op then has_del (h ! op)
      else if ob_kind (h ! op) = Heaptype then has_del (h ! op)
      else False)"

text \<open>
  \<^verbatim>\<open>move_finalizers\<close> reads \<^verbatim>\<open>gc_next\<close> before it moves an object, so it
  visits the objects that \<^verbatim>\<open>unreachable\<close> held at entry, in order.
\<close>

definition move_finalizers_step :: "nat \<Rightarrow> gc_heap \<times> nat list \<times> nat list \<Rightarrow> gc_heap \<times> nat list \<times> nat list" where
  "move_finalizers_step gc s =
     (case s of (h, unreachable, finalizers) \<Rightarrow>
        if has_finalizer h gc
        then (set_gc_refs gc GC_REACHABLE h, gc_list_remove gc unreachable, gc_list_append gc finalizers)
        else s)"

definition move_finalizers :: "gc_heap \<Rightarrow> nat list \<Rightarrow> nat list \<Rightarrow> gc_heap \<times> nat list \<times> nat list" where
  "move_finalizers h unreachable finalizers = fold move_finalizers_step unreachable (h, unreachable, finalizers)"

definition visit_move :: "nat \<Rightarrow> mu_state \<Rightarrow> mu_state" where
  "visit_move op s =
     (case s of (h, scanned, rest, unreachable) \<Rightarrow>
        if PyObject_IS_GC h op then
          (if gc_refs (h ! op) = GC_TENTATIVELY_UNREACHABLE then
             (set_gc_refs op GC_REACHABLE h,
              gc_list_remove op scanned,
              gc_list_append op (gc_list_remove op rest),
              gc_list_remove op unreachable)
           else s)
        else s)"

lemma visit_move_measure: "mu_measure (visit_move op s) \<le> mu_measure s"
proof -
  obtain h scanned rest unreachable where s: "s = (h, scanned, rest, unreachable)"
    by (cases s) auto
  show ?thesis
  proof (cases "PyObject_IS_GC h op \<and> gc_refs (h ! op) = GC_TENTATIVELY_UNREACHABLE")
    case False
    then show ?thesis
      by (auto simp: s visit_move_def)
  next
    case True
    then have lt: "op < length h" and w: "gc_weight1 (gc_refs (h ! op)) = 2"
      by (auto simp: PyObject_IS_GC_def gc_weight1_def)
    have "gc_weight1 GC_REACHABLE = 0"
      by (simp add: gc_weight1_def GC_TENTATIVELY_UNREACHABLE_def GC_REACHABLE_def)
    with gc_weight_set [OF lt, of GC_REACHABLE] w
    have "gc_weight (set_gc_refs op GC_REACHABLE h) + 2 = gc_weight h"
      by simp
    moreover have "length (gc_list_append op (gc_list_remove op rest)) \<le> length rest + 1"
      using length_gc_list_remove [of op rest] by (simp add: gc_list_append_def)
    ultimately show ?thesis
      using True by (auto simp: s visit_move_def mu_measure_def)
  qed
qed

lemma fold_visit_move_measure: "mu_measure (fold visit_move ops s) \<le> mu_measure s"
proof (induction ops arbitrary: s)
  case Nil
  show ?case by simp
next
  case (Cons a ops)
  have "mu_measure (fold visit_move ops (visit_move a s)) \<le> mu_measure (visit_move a s)"
    by (rule Cons.IH)
  also have "\<dots> \<le> mu_measure s"
    by (rule visit_move_measure)
  finally show ?case by simp
qed

function move_finalizer_reachable :: "gc_heap \<Rightarrow> nat list \<Rightarrow> nat list \<Rightarrow> nat list \<Rightarrow> gc_heap \<times> nat list \<times> nat list" where
  "move_finalizer_reachable h scanned [] unreachable = (h, scanned, unreachable)"
| "move_finalizer_reachable h scanned (gc # rest) unreachable =
     (case fold visit_move (referents (h ! gc)) (h, scanned @ [gc], rest, unreachable) of
        (h2, scanned2, rest2, unreachable2) \<Rightarrow> move_finalizer_reachable h2 scanned2 rest2 unreachable2)"
  by pat_completeness auto
termination
proof (relation "measure (\<lambda>(h, scanned, rest, unreachable). mu_measure (h, scanned, rest, unreachable))", goal_cases)
  case 1
  show ?case by simp
next
  case (2 h scanned gc rest unreachable h2 t scanned2 u rest2 unreachable2)
  have "mu_measure (h, scanned @ [gc], rest, unreachable) < mu_measure (h, scanned, gc # rest, unreachable)"
    by (simp add: mu_measure_def)
  moreover have "mu_measure (h2, scanned2, rest2, unreachable2)
             \<le> mu_measure (h, scanned @ [gc], rest, unreachable)"
    using fold_visit_move_measure [of "referents (h ! gc)" "(h, scanned @ [gc], rest, unreachable)"] 2
    by simp
  ultimately show ?case by simp
qed

subsection \<open>Generations and the collector's state\<close>

text \<open>
  \<^verbatim>\<open>threshold\<close> and \<^verbatim>\<open>count\<close> are C \<^verbatim>\<open>int\<close>s of 32 bits; an increment that
  leaves the range wraps around (two's complement).
\<close>

definition wrap_int :: "int \<Rightarrow> int" where
  "wrap_int x = (x + 2147483648) mod 4294967296 - 2147483648"

record gc_generation =
  head :: "nat list"
  threshold :: int
  count :: int

record gc_state =
  heap :: gc_heap
  generations :: "gc_generation list"
  enabled :: bool
  collecting :: bool
  garbage :: "nat list option"
  debug :: nat
  err_occurred :: bool

definition NUM_GENERATIONS :: nat where "NUM_GENERATIONS = 3"

definition DEBUG_SAVEALL :: nat where "DEBUG_SAVEALL = 32"

definition debug_flag :: "gc_state \<Rightarrow> nat \<Rightarrow> bool" where
  "debug_flag s flag = odd (debug s div flag)"

definition GEN_HEAD :: "gc_state \<Rightarrow> nat \<Rightarrow> nat list" where
  "GEN_HEAD s n = head (generations s ! n)"

definition set_GEN_HEAD :: "nat \<Rightarrow> nat list \<Rightarrow> gc_state \<Rightarrow> gc_state" where
  "set_GEN_HEAD n l s = s\<lparr>generations := (generations s)[n := (generations s ! n)\<lparr>head := l\<rparr>]\<rparr>"

definition set_count :: "nat \<Rightarrow> int \<Rightarrow> gc_state \<Rightarrow> gc_state" where
  "set_count n c s = s\<lparr>generations := (generations s)[n := (generations s ! n)\<lparr>count := c\<rparr>]\<rparr>"

definition gc_list_merge :: "nat \<Rightarrow> nat \<Rightarrow> gc_state \<Rightarrow> gc_state" where
  "gc_list_merge from to s =
     set_GEN_HEAD from [] (set_GEN_HEAD to (GEN_HEAD s to @ GEN_HEAD s from) s)"

subsection \<open>\<^verbatim>\<open>delete_garbage\<close>\<close>

text \<open>
  Modelled from the spec: \<^verbatim>\<open>tp_clear\<close>, \<^verbatim>\<open>Py_INCREF\<close>, \<^verbatim>\<open>Py_DECREF\<close> and
  deallocation belong to the object model, which is outside the sources at hand.  The
  specification says of \<^verbatim>\<open>delete_garbage\<close>: ``for each object in
  \<^verbatim>\<open>unreachable\<close>, invoke its clear callback (which drops its internal references,
  breaking the cycle).  Refcount-driven deletion then removes it.''  So clearing an object
  empties its referents and decrements each of them; an object whose count reaches zero is
  deallocated, which decrements its own referents in turn and ends in
  \<^verbatim>\<open>PyObject_GC_Del\<close>.  \<open>Py_DECREF_all\<close> takes the pending decrements and returns
  the store with the objects deallocated, in order.
\<close>

definition live_objects :: "gc_heap \<Rightarrow> nat" where
  "live_objects h = length (filter (\<lambda>ob. \<not> freed ob) h)"

function Py_DECREF_all :: "nat list \<Rightarrow> gc_heap \<Rightarrow> nat list \<Rightarrow> gc_heap \<times> nat list" where
  "Py_DECREF_all [] h deallocated = (h, deallocated)"
| "Py_DECREF_all (op # ops) h deallocated =
     (if op < length h \<and> \<not> freed (h ! op) then
        (let h1 = h[op := (h ! op)\<lparr>ob_refcnt := ob_refcnt (h ! op) - 1\<rparr>] in
         if ob_refcnt (h1 ! op) = 0
         then Py_DECREF_all (referents (h1 ! op) @ ops)
                (h1[op := (h1 ! op)\<lparr>referents := [], freed := True\<rparr>]) (deallocated @ [op])
         else Py_DECREF_all ops h1 deallocated)
      else Py_DECREF_all ops h deallocated)"
  by pat_completeness auto

lemma live_objects_update:
  assumes "op < length h"
  shows "live_objects (h[op := ob]) + (if freed (h ! op) then 0 else 1)
         = live_objects h + (if freed ob then 0 else 1)"
proof -
  let ?f = "\<lambda>ob. if freed ob then 0 else (1::nat)"
  have alt: "live_objects h = sum_list (map ?f h)" for h
    by (induction h) (simp_all add: live_objects_def)
  have "(map ?f h) ! op \<le> sum_list (map ?f h)"
    using assms by (intro elem_le_sum_list) simp
  then show ?thesis
    using assms by (simp add: alt map_update sum_list_update)
qed

termination Py_DECREF_all
proof (relation "measures [\<lambda>(ops, h, d). live_objects h, \<lambda>(ops, h, d). length ops]", goal_cases)
  case 1
  show ?case by simp
next
  case (2 op ops h deallocated h1)
  then have lt: "op < length h" and nf: "\<not> freed (h ! op)" and h1: "h1 = h[op := (h ! op)\<lparr>ob_refcnt := ob_refcnt (h ! op) - 1\<rparr>]"
    by simp_all
  have "live_objects h1 = live_objects h"
    using live_objects_update [OF lt, of "(h ! op)\<lparr>ob_refcnt := ob_refcnt (h ! op) - 1\<rparr>"] nf h1
    by simp
  moreover have "live_objects (h1[op := (h1 ! op)\<lparr>referents := [], freed := True\<rparr>]) + 1 = live_objects h1"
    using live_objects_update [of op h1 "(h1 ! op)\<lparr>referents := [], freed := True\<rparr>"] lt nf h1
    by simp
  ultimately show ?case by simp
next
  case (3 op ops h deallocated h1)
  then have lt: "op < length h" and nf: "\<not> freed (h ! op)" and h1: "h1 = h[op := (h ! op)\<lparr>ob_refcnt := ob_refcnt (h ! op) - 1\<rparr>]"
    by simp_all
  have "live_objects h1 = live_objects h"
    using live_objects_update [OF lt, of "(h ! op)\<lparr>ob_refcnt := ob_refcnt (h ! op) - 1\<rparr>"] nf h1
    by simp
  then show ?case by simp
next
  case (4 op ops h deallocated)
  show ?case by simp
qed

text \<open>
  \<^verbatim>\<open>PyObject_GC_Del\<close> is part of the sources.  During \<^verbatim>\<open>delete_garbage\<close> the
  lists an object can be on are the generations, \<^verbatim>\<open>collectable\<close> and
  \<^verbatim>\<open>finalizers\<close>.
\<close>

type_synonym dg_state = "gc_state \<times> nat list \<times> nat list"

definition PyObject_GC_Del :: "nat \<Rightarrow> dg_state \<Rightarrow> dg_state" where
  "PyObject_GC_Del op st =
     (case st of (s, collectable, finalizers) \<Rightarrow>
        let (s1, collectable1, finalizers1) =
              (if IS_TRACKED (heap s) op
               then (s\<lparr>generations := map (\<lambda>g. g\<lparr>head := gc_list_remove op (head g)\<rparr>) (generations s)\<rparr>,
                     gc_list_remove op collectable, gc_list_remove op finalizers)
               else (s, collectable, finalizers));
            s2 = (if count (generations s1 ! 0) > 0
                  then set_count 0 (count (generations s1 ! 0) - 1) s1 else s1)
        in (s2, collectable1, finalizers1))"

definition call_tp_clear :: "nat \<Rightarrow> dg_state \<Rightarrow> dg_state" where
  "call_tp_clear op st =
     (case st of (s, collectable, finalizers) \<Rightarrow>
        let h = heap s;
            h1 = h[op := (h ! op)\<lparr>ob_refcnt := ob_refcnt (h ! op) + 1\<rparr>];
            children = referents (h1 ! op);
            h2 = h1[op := (h1 ! op)\<lparr>referents := []\<rparr>];
            (h3, d3) = Py_DECREF_all children h2 [];
            (h4, d4) = Py_DECREF_all [op] h3 d3
        in fold PyObject_GC_Del d4 (s\<lparr>heap := h4\<rparr>, collectable, finalizers))"

text \<open>
  Modelled from the spec: \<^verbatim>\<open>PyList_Append\<close> belongs to the list object, which is
  outside the sources at hand.  The specification says that the objects are appended to a
  user-visible \<^verbatim>\<open>garbage\<close> list; a list owns a reference to each of its items, so
  the append raises the \<^verbatim>\<open>ob_refcnt\<close> of the object by one.  Appending to a
  \<^verbatim>\<open>garbage\<close> that is still NULL fails and leaves an error set.  Appending to an
  existing list is taken to succeed (memory for the list is not modelled).
\<close>

definition PyList_Append :: "nat \<Rightarrow> gc_state \<Rightarrow> gc_state" where
  "PyList_Append op s =
     (case garbage s of
        None \<Rightarrow> s\<lparr>err_occurred := True\<rparr>
      | Some l \<Rightarrow>
          s\<lparr>garbage := Some (l @ [op]),
            heap := (heap s)[op := (heap s ! op)\<lparr>ob_refcnt := ob_refcnt (heap s ! op) + 1\<rparr>]\<rparr>)"

text \<open>
  One turn of the loop of \<^verbatim>\<open>delete_garbage\<close> up to the test whether the object
  is still the first of \<^verbatim>\<open>collectable\<close>.  With \<^verbatim>\<open>DEBUG_SAVEALL\<close> the object
  is appended to \<^verbatim>\<open>garbage\<close>.
\<close>

definition delete_garbage_step :: "nat \<Rightarrow> dg_state \<Rightarrow> dg_state" where
  "delete_garbage_step gc st =
     (case st of (s, collectable, finalizers) \<Rightarrow>
        if debug_flag s DEBUG_SAVEALL
        then (PyList_Append gc s, collectable, finalizers)
        else if tp_clear (heap s ! gc) then call_tp_clear gc st
        else st)"

lemma filter_gc_list_remove: "gc_list_remove x (filter P xs) = filter (\<lambda>y. P y \<and> y \<noteq> x) xs"
  by (induction xs) (auto simp: gc_list_remove_def)

lemma PyObject_GC_Del_collectable:
  assumes "fst (snd st) = filter P xs"
  shows "\<exists>Q. fst (snd (PyObject_GC_Del op st)) = filter Q xs"
proof -
  obtain s c f where st: "st = (s, c, f)" by (cases st) auto
  show ?thesis
  proof (cases "IS_TRACKED (heap s) op")
    case True
    then have "fst (snd (PyObject_GC_Del op st)) = gc_list_remove op (filter P xs)"
      using assms by (simp add: st PyObject_GC_Del_def Let_def)
    then show ?thesis by (auto simp: filter_gc_list_remove)
  next
    case False
    then have "fst (snd (PyObject_GC_Del op st)) = filter P xs"
      using assms by (simp add: st PyObject_GC_Del_def Let_def)
    then show ?thesis by blast
  qed
qed

lemma fold_PyObject_GC_Del_collectable:
  "fst (snd st) = filter P xs \<Longrightarrow> \<exists>Q. fst (snd (fold PyObject_GC_Del ops st)) = filter Q xs"
proof (induction ops arbitrary: st P)
  case Nil
  then show ?case by auto
next
  case (Cons op ops)
  from PyObject_GC_Del_collectable [OF Cons.prems, of op]
  obtain Q where "fst (snd (PyObject_GC_Del op st)) = filter Q xs" by blast
  from Cons.IH [OF this] show ?case by simp
qed

lemma delete_garbage_step_collectable:
  "\<exists>Q. fst (snd (delete_garbage_step gc (s, collectable, finalizers))) = filter Q collectable"
proof -
  have id: "collectable = filter (\<lambda>_. True) collectable" by simp
  have "\<exists>Q. fst (snd (call_tp_clear gc (s, collectable, finalizers))) = filter Q collectable"
    unfolding call_tp_clear_def Let_def
    by (auto split: prod.splits intro!: fold_PyObject_GC_Del_collectable [where P = "\<lambda>_. True"])
  then show ?thesis
    using id by (auto simp: delete_garbage_step_def intro: exI [of _ "\<lambda>_. True"])
qed

lemma filter_head_changed:
  assumes "ys = filter Q (x # xs)" and "ys = [] \<or> hd ys \<noteq> x"
  shows "length ys < length (x # xs)"
proof (cases "Q x")
  case True
  with assms show ?thesis by auto
next
  case False
  with assms have "ys = filter Q xs" by simp
  then have "length ys \<le> length xs" by simp
  then show ?thesis by simp
qed

function delete_garbage :: "nat \<Rightarrow> dg_state \<Rightarrow> dg_state" where
  "delete_garbage old (s, [], finalizers) = (s, [], finalizers)"
| "delete_garbage old (s, gc # collectable, finalizers) =
     (case delete_garbage_step gc (s, gc # collectable, finalizers) of
        (s1, collectable1, finalizers1) \<Rightarrow>
          if collectable1 \<noteq> [] \<and> hd collectable1 = gc
          then delete_garbage old
                 (set_GEN_HEAD old (gc_list_append gc (GEN_HEAD s1 old))
                    (s1\<lparr>heap := set_gc_refs gc GC_REACHABLE (heap s1)\<rparr>),
                  gc_list_remove gc collectable1, finalizers1)
          else delete_garbage old (s1, collectable1, finalizers1))"
  by pat_completeness auto
termination
proof (relation "measure (\<lambda>(old, s, collectable, finalizers). length collectable)", goal_cases)
  case 1
  show ?case by simp
next
  case (2 old s gc collectable finalizers s1 y collectable1 finalizers1)
  obtain Q where "fst (snd (delete_garbage_step gc (s, gc # collectable, finalizers))) = filter Q (gc # collectable)"
    using delete_garbage_step_collectable by blast
  with 2 have "collectable1 = filter Q (gc # collectable)"
    by (metis fst_conv snd_conv)
  then have "length collectable1 \<le> length (gc # collectable)"
    by (simp only: length_filter_le)
  moreover have "length (gc_list_remove gc collectable1) < length collectable1"
    using 2 by (cases collectable1) (auto simp: gc_list_remove_def intro: le_imp_less_Suc)
  ultimately show ?case by simp
next
  case (3 old s gc collectable finalizers s1 y collectable1 finalizers1)
  obtain Q where "fst (snd (delete_garbage_step gc (s, gc # collectable, finalizers))) = filter Q (gc # collectable)"
    using delete_garbage_step_collectable by blast
  with 3 have "collectable1 = filter Q (gc # collectable)"
    by (metis fst_conv snd_conv)
  moreover from 3 have "collectable1 = [] \<or> hd collectable1 \<noteq> gc"
    by blast
  ultimately have "length collectable1 < length (gc # collectable)"
    by (rule filter_head_changed)
  then show ?case by simp
qed

subsection \<open>\<^verbatim>\<open>handle_finalizers\<close>, \<^verbatim>\<open>collect\<close> and its callers\<close>

text \<open>
  \<^verbatim>\<open>handle_finalizers\<close>.  The list \<^verbatim>\<open>garbage\<close> exists when the loop starts, so
  no append of the loop fails.
\<close>

definition handle_finalizers :: "nat list \<Rightarrow> nat \<Rightarrow> gc_state \<Rightarrow> gc_state" where
  "handle_finalizers finalizers old s =
     (let s1 = (if garbage s = None then s\<lparr>garbage := Some []\<rparr> else s);
          s2 = fold (\<lambda>gc s. if debug_flag s DEBUG_SAVEALL \<or> has_finalizer (heap s) gc
                             then PyList_Append gc s else s)
                 finalizers s1
      in set_GEN_HEAD old (GEN_HEAD s2 old @ finalizers) s2)"

text \<open>
  \<^verbatim>\<open>collect\<close>, statement by statement, in three parts; the debugging output is left
  out.  The first part updates the counters, the second merges the younger generations
  with the one that is collected, the third is the rest.  The result is
  \<^verbatim>\<open>n + m\<close> and the new state, or the fatal error of the last statement.
\<close>

definition update_counters :: "nat \<Rightarrow> gc_state \<Rightarrow> gc_state" where
  "update_counters generation s0 =
     (let s1 = (if generation + 1 < NUM_GENERATIONS
                then set_count (generation + 1)
                       (wrap_int (count (generations s0 ! (generation + 1)) + 1)) s0
                else s0)
      in fold (\<lambda>i. set_count i 0) [0..<generation + 1] s1)"

definition merge_younger :: "nat \<Rightarrow> gc_state \<Rightarrow> gc_state" where
  "merge_younger generation s2 = fold (\<lambda>i. gc_list_merge i generation) [0..<generation] s2"

definition collect_young :: "nat \<Rightarrow> gc_state \<Rightarrow> fatal + (int \<times> gc_state)" where
  "collect_young generation s3 =
     (let young = generation;
          old = (if generation < NUM_GENERATIONS - 1 then generation + 1 else young);
          h4 = subtract_refs (GEN_HEAD s3 young) (update_refs (GEN_HEAD s3 young) (heap s3));
          (h5, young5, unreachable5) = move_unreachable h4 [] (GEN_HEAD s3 young) [];
          s5 = set_GEN_HEAD young young5 (s3\<lparr>heap := h5\<rparr>);
          s6 = (if young \<noteq> old then gc_list_merge young old s5 else s5);
          (h7, unreachable7, finalizers7) = move_finalizers (heap s6) unreachable5 [];
          (h8, finalizers8, unreachable8) = move_finalizer_reachable h7 [] finalizers7 unreachable7;
          m = int (length unreachable8);
          (s9, unreachable9, finalizers9) = delete_garbage old (s6\<lparr>heap := h8\<rparr>, unreachable8, finalizers8);
          n = int (length finalizers9);
          s10 = handle_finalizers finalizers9 old s9
      in if err_occurred s10
         then Inl (Py_FatalError ''unexpected exception during garbage collection'')
         else Inr (n + m, s10))"

definition collect :: "nat \<Rightarrow> gc_state \<Rightarrow> fatal + (int \<times> gc_state)" where
  "collect generation s0 =
     collect_young generation (merge_younger generation (update_counters generation s0))"

fun collect_generations_from :: "nat \<Rightarrow> gc_state \<Rightarrow> fatal + (int \<times> gc_state)" where
  "collect_generations_from 0 s = Inr (0, s)"
| "collect_generations_from (Suc i) s =
     (if count (generations s ! i) > threshold (generations s ! i)
      then collect i s
      else collect_generations_from i s)"

definition collect_generations :: "gc_state \<Rightarrow> fatal + (int \<times> gc_state)" where
  "collect_generations s = collect_generations_from NUM_GENERATIONS s"

definition gc_collect :: "gc_state \<Rightarrow> fatal + (int \<times> gc_state)" where
  "gc_collect s =
     (if collecting s then Inr (0, s)
      else case collect (NUM_GENERATIONS - 1) (s\<lparr>collecting := True\<rparr>) of
             Inl e \<Rightarrow> Inl e
           | Inr (n, s1) \<Rightarrow> Inr (n, s1\<lparr>collecting := False\<rparr>))"

text \<open>
  \<^verbatim>\<open>_PyObject_GC_Malloc\<close>.  The argument is what \<^verbatim>\<open>PyObject_MALLOC\<close> returns:
  \<open>None\<close> for NULL, else the (uninitialised) contents of the new block, which is placed
  at the end of the store.  The result is the new object, or \<open>None\<close> with an error set.
\<close>

definition PyObject_GC_Malloc :: "gc_object option \<Rightarrow> gc_state \<Rightarrow> fatal + (nat option \<times> gc_state)" where
  "PyObject_GC_Malloc g s =
     (case g of
        None \<Rightarrow> Inr (None, s\<lparr>err_occurred := True\<rparr>)
      | Some ob \<Rightarrow>
          let op = length (heap s);
              s1 = s\<lparr>heap := heap s @ [ob\<lparr>gc_refs := GC_UNTRACKED\<rparr>]\<rparr>;
              s2 = set_count 0 (wrap_int (count (generations s1 ! 0) + 1)) s1
          in if count (generations s2 ! 0) > threshold (generations s2 ! 0)
                \<and> enabled s2 \<and> threshold (generations s2 ! 0) \<noteq> 0
                \<and> \<not> collecting s2 \<and> \<not> err_occurred s2
             then (case collect_generations (s2\<lparr>collecting := True\<rparr>) of
                     Inl e \<Rightarrow> Inl e
                   | Inr (n, s3) \<Rightarrow> Inr (Some op, s3\<lparr>collecting := False\<rparr>))
             else Inr (Some op, s2))"


subsection \<open>A reference cycle of two objects\<close>

text \<open>
  Two old-style instances \<open>A\<close> (address 0) and \<open>B\<close> (address 1) that refer to each
  other and to nothing else, with no reference from outside, both tracked in generation 0
  with the thresholds of the sources; \<open>A\<close> has a \<^verbatim>\<open>__del__\<close> method when the
  argument says so.  The \<^verbatim>\<open>garbage\<close> list exists and is empty.
\<close>

definition cycle_object :: "nat \<Rightarrow> bool \<Rightarrow> gc_object" where
  "cycle_object other del =
     \<lparr>tp_is_gc = True, ob_refcnt = 1, gc_refs = GC_REACHABLE, referents = [other],
      ob_kind = Instance, has_del = del, tp_clear = True, freed = False\<rparr>"

definition two_cycle :: "bool \<Rightarrow> gc_state" where
  "two_cycle del =
     \<lparr>heap = [cycle_object 1 del, cycle_object 0 False],
      generations = [\<lparr>head = [0, 1], threshold = 700, count = 2\<rparr>,
                     \<lparr>head = [], threshold = 10, count = 0\<rparr>,
                     \<lparr>head = [], threshold = 10, count = 0\<rparr>],
      enabled = True, collecting = False, garbage = Some [], debug = 0, err_occurred = False\<rparr>"

subsection \<open>References from outside and reachability\<close>

text \<open>
  \<^verbatim>\<open>ob_refcnt\<close> counts every reference to an object.  The references from inside a
  list \<open>young\<close> are the visits that the traversals of the objects of \<open>young\<close> pay to
  it; the others come from outside.  An object of \<open>young\<close> is reachable from outside
  when it has a reference from outside or is a referent of a reachable object of
  \<open>young\<close>.
\<close>

definition internal_refs :: "gc_heap \<Rightarrow> nat list \<Rightarrow> nat \<Rightarrow> nat" where
  "internal_refs h young op = count_list (concat (map (\<lambda>gc. referents (h ! gc)) young)) op"

definition outside_refs :: "gc_heap \<Rightarrow> nat list \<Rightarrow> nat \<Rightarrow> int" where
  "outside_refs h young op = ob_refcnt (h ! op) - int (internal_refs h young op)"

inductive_set reachable_from_outside :: "gc_heap \<Rightarrow> nat list \<Rightarrow> nat set"
  for h :: gc_heap and young :: "nat list" where
  root: "gc \<in> set young \<Longrightarrow> 0 < outside_refs h young gc \<Longrightarrow> gc \<in> reachable_from_outside h young"
| step: "gc \<in> reachable_from_outside h young \<Longrightarrow> op \<in> set (referents (h ! gc))
          \<Longrightarrow> op \<in> set young \<Longrightarrow> op \<in> reachable_from_outside h young"

text \<open>
  What \<^verbatim>\<open>collect\<close> can rely on when it starts on the merged list \<open>young\<close>: no
  object is on it twice, its objects have a GC head, the reference counts cover the
  references from inside \<open>young\<close>, and every other object with a GC head is marked
  \<^verbatim>\<open>GC_REACHABLE\<close> (tracked in an older generation) or \<^verbatim>\<open>GC_UNTRACKED\<close>.
\<close>

definition young_ok :: "gc_heap \<Rightarrow> nat list \<Rightarrow> bool" where
  "young_ok h young =
     (distinct young
      \<and> (\<forall>gc \<in> set young. PyObject_IS_GC h gc \<and> int (internal_refs h young gc) \<le> ob_refcnt (h ! gc))
      \<and> (\<forall>op \<in> set [0..<length h]. tp_is_gc (h ! op) \<longrightarrow> op \<notin> set young \<longrightarrow>
            gc_refs (h ! op) = GC_REACHABLE \<or> gc_refs (h ! op) = GC_UNTRACKED))"

text \<open>
  Four tracked containers in one generation: 0 is referred to by 3, 1 and 2 refer to each
  other, and 3 has its only reference from outside.
\<close>

definition container :: "int \<Rightarrow> nat list \<Rightarrow> gc_object" where
  "container refcnt refs =
     \<lparr>tp_is_gc = True, ob_refcnt = refcnt, gc_refs = GC_REACHABLE, referents = refs,
      ob_kind = Statictype, has_del = False, tp_clear = True, freed = False\<rparr>"

definition four_objects :: gc_heap where
  "four_objects = [container 1 [], container 1 [2], container 1 [1], container 1 [0]]"

subsection \<open>The invariant of \<^verbatim>\<open>move_unreachable\<close>\<close>

text \<open>
  The comment at the head of the loop of \<^verbatim>\<open>move_unreachable\<close>, made precise.
  \<open>href\<close> is the store at entry, \<open>young\<close> the list at entry, \<open>R\<close> the objects
  reachable from outside and \<open>R0\<close> those with a reference from outside.  While the
  referents of an object are being visited, \<open>E\<close> holds the visits still to come.
\<close>

definition mu_shape :: "gc_heap \<Rightarrow> nat list \<Rightarrow> mu_state \<Rightarrow> bool" where
  "mu_shape href young s =
     (case s of (h, scanned, rest, unreachable) \<Rightarrow>
        length h = length href
        \<and> (\<forall>g. tp_is_gc (h ! g) = tp_is_gc (href ! g) \<and> referents (h ! g) = referents (href ! g))
        \<and> distinct (scanned @ rest @ unreachable)
        \<and> set scanned \<union> set rest \<union> set unreachable = set young)"

definition mu_marks :: "nat list \<Rightarrow> nat set \<Rightarrow> mu_state \<Rightarrow> bool" where
  "mu_marks young R s =
     (case s of (h, scanned, rest, unreachable) \<Rightarrow>
        (\<forall>g \<in> set scanned. gc_refs (h ! g) = GC_REACHABLE \<and> g \<in> R)
        \<and> (\<forall>g \<in> set unreachable. gc_refs (h ! g) = GC_TENTATIVELY_UNREACHABLE)
        \<and> (\<forall>g \<in> set rest. 0 \<le> gc_refs (h ! g) \<and> (0 < gc_refs (h ! g) \<longrightarrow> g \<in> R))
        \<and> (\<forall>g. PyObject_IS_GC h g \<and> g \<notin> set young \<longrightarrow>
              gc_refs (h ! g) \<noteq> 0 \<and> gc_refs (h ! g) \<noteq> GC_TENTATIVELY_UNREACHABLE))"

definition mu_closed :: "gc_heap \<Rightarrow> nat list \<Rightarrow> nat set \<Rightarrow> (nat \<times> nat) set \<Rightarrow> mu_state \<Rightarrow> bool" where
  "mu_closed href young R0 E s =
     (case s of (h, scanned, rest, unreachable) \<Rightarrow>
        (\<forall>g \<in> set scanned. \<forall>c \<in> set (referents (href ! g)). c \<in> set young \<longrightarrow>
            c \<in> set scanned \<or> (c \<in> set rest \<and> 0 < gc_refs (h ! c)) \<or> (g, c) \<in> E)
        \<and> (\<forall>g \<in> R0. g \<in> set scanned \<or> (g \<in> set rest \<and> 0 < gc_refs (h ! g))))"

definition mu_inv ::
  "gc_heap \<Rightarrow> nat list \<Rightarrow> nat set \<Rightarrow> nat set \<Rightarrow> (nat \<times> nat) set \<Rightarrow> mu_state \<Rightarrow> bool" where
  "mu_inv href young R R0 E s =
     (mu_shape href young s \<and> mu_marks young R s \<and> mu_closed href young R0 E s)"

definition mu_context :: "gc_heap \<Rightarrow> nat list \<Rightarrow> nat set \<Rightarrow> nat set \<Rightarrow> bool" where
  "mu_context href young R R0 =
     ((\<forall>g \<in> set young. PyObject_IS_GC href g)
      \<and> R0 \<subseteq> R
      \<and> (\<forall>g \<in> R. \<forall>c \<in> set (referents (href ! g)). c \<in> set young \<longrightarrow> c \<in> R))"

subsection \<open>What \<^verbatim>\<open>delete_garbage\<close> and \<^verbatim>\<open>handle_finalizers\<close> leave alone\<close>








text \<open>
  A state in which the count of generation 0 is the largest \<^verbatim>\<open>int\<close>.
\<close>

definition count_at_INT_MAX :: gc_state where
  "count_at_INT_MAX =
     (two_cycle False)
       \<lparr>generations := [\<lparr>head = [0, 1], threshold = 700, count = 2147483647\<rparr>,
                        \<lparr>head = [], threshold = 10, count = 0\<rparr>,
                        \<lparr>head = [], threshold = 10, count = 0\<rparr>]\<rparr>"



section \<open>Runtime and thread states (\<^verbatim>\<open>Python/pystate.c\<close>)\<close>

subsection \<open>Allocation of the runtime's locks\<close>

text \<open>
  A \<^verbatim>\<open>PyThread_type_lock\<close> is a pointer: NULL or the address of a lock.  The array
  \<^verbatim>\<open>locks\<close> of \<^verbatim>\<open>_PyRuntimeState_Init\<close> lives on the stack and is not
  initialised, so its contents at entry are a parameter.  \<^verbatim>\<open>PyThread_allocate_lock\<close>
  is a parameter as well: the outcome of its \<open>k\<close>-th call in this run, \<open>None\<close> for
  NULL.  \<open>live\<close> is the set of locks allocated and not yet freed.
\<close>

datatype lock_ptr = NULL_lock | Lock nat

definition NUMLOCKS :: nat where "NUMLOCKS = 8"

definition PyThread_free_lock :: "lock_ptr \<Rightarrow> nat set \<Rightarrow> nat set" where
  "PyThread_free_lock l live = (case l of NULL_lock \<Rightarrow> live | Lock a \<Rightarrow> live - {a})"

text \<open>
  One turn of the loop of \<^verbatim>\<open>alloc_for_runtime\<close>; the flag says that the loop has
  been left by \<^verbatim>\<open>break\<close>.
\<close>

definition alloc_for_runtime_step ::
  "(nat \<Rightarrow> nat option) \<Rightarrow> nat \<Rightarrow> lock_ptr list \<times> nat set \<times> bool \<Rightarrow> lock_ptr list \<times> nat set \<times> bool" where
  "alloc_for_runtime_step allocate_lock i st =
     (case st of (locks, live, left) \<Rightarrow>
        if left then st
        else case allocate_lock i of
               None \<Rightarrow>
                 (fold (\<lambda>j locks. locks[j := NULL_lock]) [0..<i] locks,
                  fold (\<lambda>j live. PyThread_free_lock (locks ! j) live) [0..<i] live,
                  True)
             | Some a \<Rightarrow> (locks[i := Lock a], insert a live, False))"

definition alloc_for_runtime ::
  "(nat \<Rightarrow> nat option) \<Rightarrow> lock_ptr list \<Rightarrow> nat set \<Rightarrow> int \<times> lock_ptr list \<times> nat set" where
  "alloc_for_runtime allocate_lock locks live =
     (case fold (alloc_for_runtime_step allocate_lock) [0..<NUMLOCKS] (locks, live, False) of
        (locks1, live1, left) \<Rightarrow> (0, locks1, live1))"

text \<open>
  The runtime, as far as initialisation touches it: the flag \<^verbatim>\<open>_initialized\<close>, its
  eight lock fields in the order of \<^verbatim>\<open>LOCKS_INIT\<close>, whether the two thread-local
  keys exist, and the preserved hooks.
\<close>

datatype PyStatus = PyStatus_OK | PyStatus_NO_MEMORY | PyStatus_ERR string

record runtime_init_state =
  rt_initialized :: bool
  rt_locks :: "lock_ptr list"
  autoTSSkey_created :: bool
  trashTSSkey_created :: bool
  audit_hook_head :: "nat option"
  unicode_next_index :: nat
  live_locks :: "nat set"

definition runtime_initial :: "runtime_init_state \<Rightarrow> runtime_init_state" where
  "runtime_initial rt =
     rt\<lparr>rt_initialized := False, rt_locks := replicate NUMLOCKS NULL_lock,
        autoTSSkey_created := False, trashTSSkey_created := False,
        audit_hook_head := None, unicode_next_index := 0\<rparr>"

definition PyRuntimeState_Fini :: "runtime_init_state \<Rightarrow> runtime_init_state" where
  "PyRuntimeState_Fini rt =
     rt\<lparr>autoTSSkey_created := False, trashTSSkey_created := False,
        rt_locks := map (\<lambda>l. NULL_lock) (rt_locks rt),
        live_locks := fold PyThread_free_lock (rt_locks rt) (live_locks rt)\<rparr>"

text \<open>
  \<^verbatim>\<open>init_runtime\<close> asserts that no lock it is given is NULL.  The assertion is a result
  of the model when assertions are compiled in (\<open>asserts\<close>).
\<close>

datatype assertion = Assertion_failed string

definition init_runtime ::
  "bool \<Rightarrow> nat option \<Rightarrow> nat \<Rightarrow> lock_ptr list \<Rightarrow> runtime_init_state \<Rightarrow> assertion + runtime_init_state" where
  "init_runtime asserts hook next_index locks rt =
     (if asserts \<and> (\<exists>i \<in> set [0..<NUMLOCKS]. locks ! i = NULL_lock)
      then Inl (Assertion_failed ''locks[i] != NULL'')
      else Inr (rt\<lparr>audit_hook_head := hook, rt_locks := take NUMLOCKS locks,
                   unicode_next_index := next_index, rt_initialized := True\<rparr>))"

definition PyRuntimeState_Init ::
  "bool \<Rightarrow> (nat \<Rightarrow> nat option) \<Rightarrow> lock_ptr list \<Rightarrow> bool \<Rightarrow> bool \<Rightarrow> runtime_init_state
     \<Rightarrow> assertion + (PyStatus \<times> runtime_init_state)" where
  "PyRuntimeState_Init asserts allocate_lock stack_locks tss_init_ok tss_create_ok rt =
     (let hook = audit_hook_head rt;
          next_index = unicode_next_index rt
      in case alloc_for_runtime allocate_lock stack_locks (live_locks rt) of
           (r, locks, live) \<Rightarrow>
             if r \<noteq> 0 then Inr (PyStatus_NO_MEMORY, rt\<lparr>live_locks := live\<rparr>)
             else
               let rt1 = rt\<lparr>live_locks := live\<rparr>;
                   rt2 = (if rt_initialized rt1 then runtime_initial rt1 else rt1)
               in if \<not> tss_init_ok then Inr (PyStatus_NO_MEMORY, PyRuntimeState_Fini rt2)
                  else
                    let rt3 = rt2\<lparr>autoTSSkey_created := True\<rparr>
                    in if \<not> tss_create_ok then Inr (PyStatus_NO_MEMORY, PyRuntimeState_Fini rt3)
                       else
                         (case init_runtime asserts hook next_index locks
                                 (rt3\<lparr>trashTSSkey_created := True\<rparr>) of
                            Inl a \<Rightarrow> Inl a
                          | Inr rt4 \<Rightarrow> Inr (PyStatus_OK, rt4)))"

text \<open>
  A fresh runtime, and a run of \<^verbatim>\<open>PyThread_allocate_lock\<close> whose third call fails.
\<close>

definition fresh_runtime :: runtime_init_state where
  "fresh_runtime =
     \<lparr>rt_initialized = False, rt_locks = replicate NUMLOCKS NULL_lock,
      autoTSSkey_created = False, trashTSSkey_created = False,
      audit_hook_head = None, unicode_next_index = 0, live_locks = {}\<rparr>"

definition third_lock_fails :: "nat \<Rightarrow> nat option" where
  "third_lock_fails k = (if k < 2 then Some (100 + k) else None)"

subsection \<open>Thread states\<close>

text \<open>
  The operations on thread states return a sum.  Its left side is the way the operation did
  not return: a fatal error, a failed assertion, the use of a pointer to nothing, an
  acquisition of the GIL that would wait for ever since another thread holds it, or the
  overflow of a signed counter (undefined in C).  \<open>Ill_formed\<close> is the answer of a driver
  that is given a sequence of calls that is not a run of a program.
\<close>

datatype abort =
  Fatal fatal | Failed assertion | Invalid_pointer | Blocked | Signed_overflow | Ill_formed

datatype attach_state = Py_THREAD_DETACHED | Py_THREAD_ATTACHED | Py_THREAD_SUSPENDED

datatype whence =
  WHENCE_NOTSET | WHENCE_UNKNOWN | WHENCE_INTERP | WHENCE_THREADING | WHENCE_GILSTATE | WHENCE_EXEC

record tstate_status =
  initialized :: bool
  bound :: bool
  unbound :: bool
  bound_gilstate :: bool
  active :: bool
  finalizing :: bool
  cleared :: bool
  finalized :: bool

text \<open>
  A pointer into the data stack is the address of a chunk and an index into its array
  \<^verbatim>\<open>data\<close>.  A pointer to an object is its address.  \<^verbatim>\<open>c_profilefunc\<close>,
  \<^verbatim>\<open>c_tracefunc\<close> and \<^verbatim>\<open>on_delete\<close> are function pointers; the model keeps
  whether they are set.  The fields \<^verbatim>\<open>id\<close>, \<^verbatim>\<open>state\<close> and \<^verbatim>\<open>context\<close> are
  \<open>tstate_id\<close>, \<open>attached\<close> and \<open>tstate_context\<close>; the recursion limits, the frame
  pointer and the links \<^verbatim>\<open>next\<close> and \<^verbatim>\<open>prev\<close> are not fields of the model (the
  list of an interpreter's thread states is a list of addresses, head first).
\<close>

type_synonym stack_ptr = "nat \<times> nat"

record PyThreadState =
  status :: tstate_status
  tstate_id :: nat
  thread_id :: nat
  native_thread_id :: nat
  tstate_whence :: whence
  attached :: attach_state
  gilstate_counter :: int
  dict :: "nat option"
  async_exc :: "nat option"
  current_exception :: "nat option"
  exc_value :: "nat option"
  c_profilefunc :: bool
  c_tracefunc :: bool
  c_profileobj :: "nat option"
  c_traceobj :: "nat option"
  async_gen_firstiter :: "nat option"
  async_gen_finalizer :: "nat option"
  tstate_context :: "nat option"
  on_delete :: bool
  datastack_chunk :: "nat option"
  datastack_top :: "stack_ptr option"
  datastack_limit :: "stack_ptr option"

record PyStackChunk =
  previous :: "nat option"
  chunk_size :: nat
  chunk_top :: nat

type_synonym chunk_store = "(nat \<times> PyStackChunk) list"

text \<open>
  The template \<^verbatim>\<open>_PyThreadState_INIT\<close> that a thread state is reset to, and the
  all-zero block that \<^verbatim>\<open>PyMem_RawCalloc\<close> returns.
\<close>

definition status_INIT :: tstate_status where
  "status_INIT =
     \<lparr>initialized = False, bound = False, unbound = False, bound_gilstate = False,
      active = False, finalizing = False, cleared = False, finalized = False\<rparr>"

definition PyThreadState_INIT :: PyThreadState where
  "PyThreadState_INIT =
     \<lparr>status = status_INIT, tstate_id = 0, thread_id = 0, native_thread_id = 0,
      tstate_whence = WHENCE_NOTSET, attached = Py_THREAD_DETACHED, gilstate_counter = 0,
      dict = None, async_exc = None, current_exception = None, exc_value = None,
      c_profilefunc = False, c_tracefunc = False, c_profileobj = None, c_traceobj = None,
      async_gen_firstiter = None, async_gen_finalizer = None, tstate_context = None,
      on_delete = False, datastack_chunk = None, datastack_top = None,
      datastack_limit = None\<rparr>"

definition calloc_threadstate :: PyThreadState where
  "calloc_threadstate = PyThreadState_INIT\<lparr>tstate_whence := WHENCE_UNKNOWN\<rparr>"

text \<open>
  The runtime and its main interpreter, seen from one OS thread: the thread's slot of
  \<^verbatim>\<open>autoTSSkey\<close>, its thread-local \<^verbatim>\<open>_Py_tss_tstate\<close>, whether
  \<^verbatim>\<open>autoInterpreterState\<close> is set, the memory that holds thread states, the
  interpreter's list of thread states, its counter of thread-state ids, the GIL, the
  async-exception bit of the eval breaker, the reference counts of the objects, the two
  counters of profiling and tracing threads, the number of calls of \<^verbatim>\<open>on_delete\<close>
  callbacks so far, and the memory that holds stack chunks.  The thread state embedded in
  the interpreter, \<^verbatim>\<open>_initial_thread\<close>, has address 0.
\<close>

record py_state =
  autoTSSkey :: "nat option"
  Py_tss_tstate :: "nat option"
  autoInterpreterState :: bool
  tstates :: "nat \<rightharpoonup> PyThreadState"
  threads :: "nat list"
  next_unique_id :: nat
  gil_locked :: bool
  eval_breaker_async_exc :: bool
  refcnts :: "nat \<Rightarrow> int"
  sys_profiling_threads :: int
  sys_tracing_threads :: int
  on_delete_calls :: nat
  chunks :: chunk_store

definition initial_thread :: nat where "initial_thread = 0"

definition INT_MAX :: int where "INT_MAX = 2147483647"

definition INT_MIN :: int where "INT_MIN = - 2147483648"

definition current_fast_get :: "py_state \<Rightarrow> nat option" where
  "current_fast_get s = Py_tss_tstate s"

definition current_fast_set :: "nat \<Rightarrow> py_state \<Rightarrow> py_state" where
  "current_fast_set tstate s = s\<lparr>Py_tss_tstate := Some tstate\<rparr>"

definition current_fast_clear :: "py_state \<Rightarrow> py_state" where
  "current_fast_clear s = s\<lparr>Py_tss_tstate := None\<rparr>"

definition gilstate_tss_get :: "py_state \<Rightarrow> nat option" where
  "gilstate_tss_get s = autoTSSkey s"

definition gilstate_tss_set :: "nat \<Rightarrow> py_state \<Rightarrow> py_state" where
  "gilstate_tss_set tstate s = s\<lparr>autoTSSkey := Some tstate\<rparr>"

definition gilstate_tss_clear :: "py_state \<Rightarrow> py_state" where
  "gilstate_tss_clear s = s\<lparr>autoTSSkey := None\<rparr>"

text \<open>
  A write through a pointer to a thread state.  The operations below check the pointer
  they are given before they write through it.
\<close>

definition tstate_update :: "nat \<Rightarrow> (PyThreadState \<Rightarrow> PyThreadState) \<Rightarrow> py_state \<Rightarrow> py_state" where
  "tstate_update tstate f s =
     (case tstates s tstate of
        None \<Rightarrow> s
      | Some ts \<Rightarrow> s\<lparr>tstates := (tstates s)(tstate \<mapsto> f ts)\<rparr>)"

definition update_status ::
  "nat \<Rightarrow> (tstate_status \<Rightarrow> tstate_status) \<Rightarrow> py_state \<Rightarrow> py_state" where
  "update_status tstate f s = tstate_update tstate (\<lambda>ts. ts\<lparr>status := f (status ts)\<rparr>) s"

definition bind_tstate :: "nat \<Rightarrow> nat \<Rightarrow> nat \<Rightarrow> py_state \<Rightarrow> py_state" where
  "bind_tstate thread_ident native_id tstate s =
     update_status tstate (\<lambda>st. st\<lparr>bound := True\<rparr>)
       (tstate_update tstate
          (\<lambda>ts. ts\<lparr>thread_id := thread_ident, native_thread_id := native_id\<rparr>) s)"

definition unbind_tstate :: "nat \<Rightarrow> py_state \<Rightarrow> py_state" where
  "unbind_tstate tstate s = update_status tstate (\<lambda>st. st\<lparr>unbound := True\<rparr>) s"

definition bind_gilstate_tstate :: "nat \<Rightarrow> py_state \<Rightarrow> py_state" where
  "bind_gilstate_tstate tstate s =
     (let s1 = (case gilstate_tss_get s of
                  None \<Rightarrow> s
                | Some tcur \<Rightarrow> update_status tcur (\<lambda>st. st\<lparr>bound_gilstate := False\<rparr>) s)
      in update_status tstate (\<lambda>st. st\<lparr>bound_gilstate := True\<rparr>)
           (gilstate_tss_set tstate s1))"

definition unbind_gilstate_tstate :: "nat \<Rightarrow> py_state \<Rightarrow> py_state" where
  "unbind_gilstate_tstate tstate s =
     update_status tstate (\<lambda>st. st\<lparr>bound_gilstate := False\<rparr>) (gilstate_tss_clear s)"

definition holds_gil :: "nat \<Rightarrow> py_state \<Rightarrow> bool" where
  "holds_gil tstate s = (Some tstate = current_fast_get s)"

definition free_threadstate :: "nat \<Rightarrow> py_state \<Rightarrow> py_state" where
  "free_threadstate tstate s =
     (if tstate = initial_thread
      then s\<lparr>tstates := (tstates s)(tstate \<mapsto> PyThreadState_INIT)\<rparr>
      else s\<lparr>tstates := (tstates s)(tstate := None)\<rparr>)"

definition init_threadstate :: "nat \<Rightarrow> nat \<Rightarrow> whence \<Rightarrow> py_state \<Rightarrow> abort + py_state" where
  "init_threadstate tstate ident wh s =
     (case tstates s tstate of
        None \<Rightarrow> Inl Invalid_pointer
      | Some ts \<Rightarrow>
          if initialized (status ts)
          then Inl (Fatal (Py_FatalError ''thread state already initialized''))
          else Inr (update_status tstate (\<lambda>st. st\<lparr>initialized := True\<rparr>)
                      (tstate_update tstate
                         (\<lambda>ts. ts\<lparr>tstate_whence := wh, tstate_id := ident,
                                  gilstate_counter := 1, datastack_chunk := None,
                                  datastack_top := None, datastack_limit := None\<rparr>) s)))"

definition add_threadstate :: "nat \<Rightarrow> py_state \<Rightarrow> py_state" where
  "add_threadstate tstate s = s\<lparr>threads := tstate # threads s\<rparr>"

text \<open>
  \<^verbatim>\<open>new_threadstate\<close>.  The outcome of \<^verbatim>\<open>alloc_threadstate\<close> is a parameter:
  \<open>None\<close> for NULL, or the address of the new block.
\<close>

definition new_threadstate :: "nat option \<Rightarrow> whence \<Rightarrow> py_state \<Rightarrow> abort + (nat option \<times> py_state)" where
  "new_threadstate alloc wh s =
     (case alloc of
        None \<Rightarrow> Inr (None, s)
      | Some new_tstate \<Rightarrow>
          let s0 = s\<lparr>tstates := (tstates s)(new_tstate \<mapsto> calloc_threadstate)\<rparr>;
              s1 = s0\<lparr>next_unique_id := next_unique_id s0 + 1\<rparr>;
              ident = next_unique_id s1;
              old_head = threads s1;
              used_newtstate = (old_head \<noteq> []);
              tstate = (if used_newtstate then new_tstate else initial_thread);
              s2 = (if used_newtstate
                    then s1\<lparr>tstates := (tstates s1)(tstate \<mapsto> PyThreadState_INIT)\<rparr>
                    else s1)
          in case init_threadstate tstate ident wh s2 of
               Inl e \<Rightarrow> Inl e
             | Inr s3 \<Rightarrow>
                 let s4 = add_threadstate tstate s3;
                     s5 = (if \<not> used_newtstate
                           then s4\<lparr>tstates := (tstates s4)(new_tstate := None)\<rparr>
                           else s4)
                 in Inr (Some tstate, s5))"

text \<open>
  \<^verbatim>\<open>Py_CLEAR\<close> of a field drops one reference to the object it held; what the
  deallocation of an object runs is outside the model.
\<close>

definition Py_XDECREF :: "nat option \<Rightarrow> (nat \<Rightarrow> int) \<Rightarrow> (nat \<Rightarrow> int)" where
  "Py_XDECREF ob rc = (case ob of None \<Rightarrow> rc | Some a \<Rightarrow> rc(a := rc a - 1))"

definition Py_XNewRef :: "nat option \<Rightarrow> (nat \<Rightarrow> int) \<Rightarrow> (nat \<Rightarrow> int)" where
  "Py_XNewRef ob rc = (case ob of None \<Rightarrow> rc | Some a \<Rightarrow> rc(a := rc a + 1))"

definition PyThreadState_Clear :: "nat \<Rightarrow> py_state \<Rightarrow> abort + py_state" where
  "PyThreadState_Clear tstate s =
     (case tstates s tstate of
        None \<Rightarrow> Inl Invalid_pointer
      | Some ts \<Rightarrow>
          let held = [dict ts, async_exc ts, current_exception ts, exc_value ts,
                      c_profileobj ts, c_traceobj ts, async_gen_firstiter ts,
                      async_gen_finalizer ts, tstate_context ts];
              ts1 = ts\<lparr>status := (status ts)\<lparr>finalizing := True, cleared := True\<rparr>,
                       dict := None, async_exc := None, current_exception := None,
                       exc_value := None, c_profilefunc := False, c_tracefunc := False,
                       c_profileobj := None, c_traceobj := None,
                       async_gen_firstiter := None, async_gen_finalizer := None,
                       tstate_context := None\<rparr>
          in Inr (s\<lparr>tstates := (tstates s)(tstate \<mapsto> ts1),
                     refcnts := fold Py_XDECREF held (refcnts s),
                     sys_profiling_threads :=
                       (if c_profilefunc ts then sys_profiling_threads s - 1
                        else sys_profiling_threads s),
                     sys_tracing_threads :=
                       (if c_tracefunc ts then sys_tracing_threads s - 1
                        else sys_tracing_threads s),
                     on_delete_calls :=
                       (if on_delete ts then on_delete_calls s + 1 else on_delete_calls s)\<rparr>))"

text \<open>
  \<^verbatim>\<open>clear_datastack\<close> frees the chunks of a thread state along their \<^verbatim>\<open>previous\<close>
  links.  A chunk that is not allocated ends the walk.
\<close>

function free_chunks :: "nat option \<Rightarrow> chunk_store \<Rightarrow> chunk_store" where
  "free_chunks None m = m"
| "free_chunks (Some chunk) m =
     (case map_of m chunk of
        None \<Rightarrow> m
      | Some ch \<Rightarrow> free_chunks (previous ch) (AList.delete chunk m))"
  by pat_completeness auto

lemma length_delete_less:
  "map_of m k = Some v \<Longrightarrow> length (AList.delete k m) < length m"
  by (induction m) (auto simp add: less_Suc_eq_le AList.length_delete_le split: if_splits)

termination free_chunks
  by (relation "measure (\<lambda>(c, m). length m)") (auto simp add: length_delete_less)

definition clear_datastack :: "nat \<Rightarrow> py_state \<Rightarrow> py_state" where
  "clear_datastack tstate s =
     (case tstates s tstate of
        None \<Rightarrow> s
      | Some ts \<Rightarrow>
          (tstate_update tstate (\<lambda>ts. ts\<lparr>datastack_chunk := None\<rparr>) s)
            \<lparr>chunks := free_chunks (datastack_chunk ts) (chunks s)\<rparr>)"

definition tstate_delete_common :: "nat \<Rightarrow> py_state \<Rightarrow> abort + py_state" where
  "tstate_delete_common tstate s =
     (case tstates s tstate of
        None \<Rightarrow> Inl Invalid_pointer
      | Some ts \<Rightarrow>
          let s1 = s\<lparr>threads := remove1 tstate (threads s)\<rparr>;
              s2 = (if bound_gilstate (status ts) then unbind_gilstate_tstate tstate s1 else s1);
              s3 = unbind_tstate tstate s2;
              s4 = clear_datastack tstate s3
          in Inr (update_status tstate (\<lambda>st. st\<lparr>finalized := True\<rparr>) s4))"

definition tstate_set_detached :: "nat \<Rightarrow> py_state \<Rightarrow> py_state" where
  "tstate_set_detached tstate s =
     tstate_update tstate (\<lambda>ts. ts\<lparr>attached := Py_THREAD_DETACHED\<rparr>) s"

definition tstate_try_attach :: "nat \<Rightarrow> py_state \<Rightarrow> py_state" where
  "tstate_try_attach tstate s =
     tstate_update tstate (\<lambda>ts. ts\<lparr>attached := Py_THREAD_ATTACHED\<rparr>) s"

definition tstate_activate :: "nat \<Rightarrow> py_state \<Rightarrow> abort + py_state" where
  "tstate_activate tstate s =
     (case tstates s tstate of
        None \<Rightarrow> Inl Invalid_pointer
      | Some ts \<Rightarrow>
          let s1 = (if \<not> bound_gilstate (status ts) then bind_gilstate_tstate tstate s else s)
          in Inr (update_status tstate (\<lambda>st. st\<lparr>active := True\<rparr>) s1))"

definition tstate_deactivate :: "nat \<Rightarrow> py_state \<Rightarrow> py_state" where
  "tstate_deactivate tstate s = update_status tstate (\<lambda>st. st\<lparr>active := False\<rparr>) s"

text \<open>
  Modelled from the spec: \<^verbatim>\<open>_PyEval_AcquireLock\<close> and \<^verbatim>\<open>_PyEval_ReleaseLock\<close> are
  not among the sources.  The GIL is a binary lock: acquiring it when it is free takes it,
  acquiring it when it is held waits for the holder, which in a run of one thread never
  comes; releasing it frees it.
\<close>

definition PyEval_AcquireLock :: "py_state \<Rightarrow> abort + py_state" where
  "PyEval_AcquireLock s = (if gil_locked s then Inl Blocked else Inr (s\<lparr>gil_locked := True\<rparr>))"

definition PyEval_ReleaseLock :: "py_state \<Rightarrow> py_state" where
  "PyEval_ReleaseLock s = s\<lparr>gil_locked := False\<rparr>"

text \<open>
  The critical sections that \<^verbatim>\<open>_PyThreadState_Attach\<close> resumes and
  \<^verbatim>\<open>_PyThreadState_Detach\<close> suspends are outside the model.
\<close>

definition PyThreadState_Attach :: "nat \<Rightarrow> py_state \<Rightarrow> abort + py_state" where
  "PyThreadState_Attach tstate s =
     (if current_fast_get s \<noteq> None then Inl (Fatal (Py_FatalError ''non-NULL old thread state''))
      else case PyEval_AcquireLock s of
             Inl e \<Rightarrow> Inl e
           | Inr s1 \<Rightarrow>
               (case tstate_activate tstate (current_fast_set tstate s1) of
                  Inl e \<Rightarrow> Inl e
                | Inr s2 \<Rightarrow> Inr (tstate_try_attach tstate s2)))"

definition PyThreadState_Detach :: "nat \<Rightarrow> py_state \<Rightarrow> abort + py_state" where
  "PyThreadState_Detach tstate s =
     (case tstates s tstate of
        None \<Rightarrow> Inl Invalid_pointer
      | Some ts \<Rightarrow>
          Inr (PyEval_ReleaseLock
                 (current_fast_clear (tstate_deactivate tstate (tstate_set_detached tstate s)))))"

definition PyThreadState_DeleteCurrent :: "nat \<Rightarrow> py_state \<Rightarrow> abort + py_state" where
  "PyThreadState_DeleteCurrent tstate s =
     (case tstate_delete_common tstate (tstate_set_detached tstate s) of
        Inl e \<Rightarrow> Inl e
      | Inr s1 \<Rightarrow> Inr (free_threadstate tstate (PyEval_ReleaseLock (current_fast_clear s1))))"

text \<open>
  Modelled from the spec: \<^verbatim>\<open>PyEval_RestoreThread\<close> and \<^verbatim>\<open>PyEval_SaveThread\<close> are
  not among the sources.  The first attaches the thread state it is given; the second
  detaches the current thread state, and it is a fatal error to have none.
\<close>

definition PyEval_RestoreThread :: "nat \<Rightarrow> py_state \<Rightarrow> abort + py_state" where
  "PyEval_RestoreThread tstate s = PyThreadState_Attach tstate s"

definition PyEval_SaveThread :: "py_state \<Rightarrow> abort + py_state" where
  "PyEval_SaveThread s =
     (case current_fast_get s of
        None \<Rightarrow> Inl (Fatal (Py_FatalError ''the function must be called with the GIL held''))
      | Some tstate \<Rightarrow> PyThreadState_Detach tstate s)"

subsection \<open>Ensure and Release\<close>

datatype PyGILState_STATE = PyGILState_LOCKED | PyGILState_UNLOCKED

text \<open>
  \<^verbatim>\<open>PyGILState_Ensure\<close>.  The parameters are what the platform answers: the block
  that \<^verbatim>\<open>alloc_threadstate\<close> returns, and the two identifiers of the OS thread.
\<close>

definition PyGILState_Ensure ::
  "nat option \<Rightarrow> nat \<Rightarrow> nat \<Rightarrow> py_state \<Rightarrow> abort + (PyGILState_STATE \<times> py_state)" where
  "PyGILState_Ensure alloc thread_ident native_id s =
     (let found =
            (case gilstate_tss_get s of
               None \<Rightarrow>
                 if \<not> autoInterpreterState s then Inl Invalid_pointer
                 else (case new_threadstate alloc WHENCE_GILSTATE s of
                         Inl e \<Rightarrow> Inl e
                       | Inr (None, s1) \<Rightarrow>
                           Inl (Fatal (Py_FatalError
                                  ''Couldn't create thread-state for new thread''))
                       | Inr (Some tcur, s1) \<Rightarrow>
                           Inr (tcur, False,
                                tstate_update tcur (\<lambda>ts. ts\<lparr>gilstate_counter := 0\<rparr>)
                                  (bind_gilstate_tstate tcur
                                     (bind_tstate thread_ident native_id tcur s1))))
             | Some tcur \<Rightarrow> Inr (tcur, holds_gil tcur s, s))
      in case found of
           Inl e \<Rightarrow> Inl e
         | Inr (tcur, has_gil, s2) \<Rightarrow>
             (case (if \<not> has_gil then PyEval_RestoreThread tcur s2 else Inr s2) of
                Inl e \<Rightarrow> Inl e
              | Inr s3 \<Rightarrow>
                  (case tstates s3 tcur of
                     None \<Rightarrow> Inl Invalid_pointer
                   | Some ts \<Rightarrow>
                       if gilstate_counter ts = INT_MAX then Inl Signed_overflow
                       else Inr (if has_gil then PyGILState_LOCKED else PyGILState_UNLOCKED,
                                 tstate_update tcur
                                   (\<lambda>ts. ts\<lparr>gilstate_counter := gilstate_counter ts + 1\<rparr>)
                                   s3))))"

definition PyGILState_Release :: "PyGILState_STATE \<Rightarrow> py_state \<Rightarrow> abort + py_state" where
  "PyGILState_Release oldstate s =
     (case gilstate_tss_get s of
        None \<Rightarrow>
          Inl (Fatal (Py_FatalError
                 ''auto-releasing thread-state, but no thread-state for this thread''))
      | Some tstate \<Rightarrow>
          if \<not> holds_gil tstate s
          then Inl (Fatal (Py_FatalError ''thread state must be current when releasing''))
          else (case tstates s tstate of
                  None \<Rightarrow> Inl Invalid_pointer
                | Some ts \<Rightarrow>
                    if gilstate_counter ts = INT_MIN then Inl Signed_overflow
                    else
                      let s1 = tstate_update tstate
                                 (\<lambda>ts. ts\<lparr>gilstate_counter := gilstate_counter ts - 1\<rparr>) s
                      in if gilstate_counter ts - 1 = 0
                         then (case PyThreadState_Clear tstate s1 of
                                 Inl e \<Rightarrow> Inl e
                               | Inr s2 \<Rightarrow> PyThreadState_DeleteCurrent tstate s2)
                         else if oldstate = PyGILState_UNLOCKED then PyEval_SaveThread s1
                         else Inr s1))"

text \<open>
  \<open>n\<close> nested calls of \<^verbatim>\<open>PyGILState_Ensure\<close>, which return the state and the tokens
  of the calls, the token of the innermost call first; and the matching calls of
  \<^verbatim>\<open>PyGILState_Release\<close>, innermost first.
\<close>

fun ensure_n ::
  "nat \<Rightarrow> nat option \<Rightarrow> nat \<Rightarrow> nat \<Rightarrow> py_state \<Rightarrow> abort + (PyGILState_STATE list \<times> py_state)" where
  "ensure_n 0 alloc thread_ident native_id s = Inr ([], s)"
| "ensure_n (Suc n) alloc thread_ident native_id s =
     (case PyGILState_Ensure alloc thread_ident native_id s of
        Inl e \<Rightarrow> Inl e
      | Inr (token, s1) \<Rightarrow>
          (case ensure_n n alloc thread_ident native_id s1 of
             Inl e \<Rightarrow> Inl e
           | Inr (tokens, s2) \<Rightarrow> Inr (tokens @ [token], s2)))"

fun release_all :: "PyGILState_STATE list \<Rightarrow> py_state \<Rightarrow> abort + py_state" where
  "release_all [] s = Inr s"
| "release_all (token # tokens) s =
     (case PyGILState_Release token s of
        Inl e \<Rightarrow> Inl e
      | Inr s1 \<Rightarrow> release_all tokens s1)"

subsection \<open>Asynchronous exceptions\<close>

text \<open>
  Modelled from the spec: \<^verbatim>\<open>_PyEval_SignalAsyncExc\<close> is not among the sources; it
  raises the async-exception bit of the interpreter's eval breaker.
\<close>

definition PyEval_SignalAsyncExc :: "py_state \<Rightarrow> py_state" where
  "PyEval_SignalAsyncExc s = s\<lparr>eval_breaker_async_exc := True\<rparr>"

text \<open>
  The loop of \<^verbatim>\<open>PyThreadState_SetAsyncExc\<close> over the thread states that are left to
  visit.  The head mutex is taken before the loop and released on both ways out of it.
\<close>

fun SetAsyncExc_from :: "nat list \<Rightarrow> nat \<Rightarrow> nat option \<Rightarrow> py_state \<Rightarrow> abort + (int \<times> py_state)" where
  "SetAsyncExc_from [] ident exc s = Inr (0, s)"
| "SetAsyncExc_from (tstate # rest) ident exc s =
     (case tstates s tstate of
        None \<Rightarrow> Inl Invalid_pointer
      | Some ts \<Rightarrow>
          if thread_id ts \<noteq> ident then SetAsyncExc_from rest ident exc s
          else
            let old_exc = async_exc ts;
                s1 = s\<lparr>refcnts := Py_XNewRef exc (refcnts s)\<rparr>;
                s2 = tstate_update tstate (\<lambda>ts. ts\<lparr>async_exc := exc\<rparr>) s1;
                s3 = s2\<lparr>refcnts := Py_XDECREF old_exc (refcnts s2)\<rparr>
            in Inr (1, PyEval_SignalAsyncExc s3))"

definition PyThreadState_SetAsyncExc :: "nat \<Rightarrow> nat option \<Rightarrow> py_state \<Rightarrow> abort + (int \<times> py_state)" where
  "PyThreadState_SetAsyncExc ident exc s = SetAsyncExc_from (threads s) ident exc s"

text \<open>
  An interpreter with three thread states, at the addresses 3, 2 and 1 in the order of its
  list.  The first belongs to the OS thread 5, the other two to the OS thread 7; the second
  has the object 40 pending as its asynchronous exception.
\<close>

definition bound_threadstate :: "nat \<Rightarrow> nat \<Rightarrow> nat option \<Rightarrow> PyThreadState" where
  "bound_threadstate ident thread exc =
     PyThreadState_INIT
       \<lparr>status := status_INIT\<lparr>initialized := True, bound := True\<rparr>,
        tstate_id := ident, thread_id := thread, native_thread_id := thread,
        tstate_whence := WHENCE_THREADING, gilstate_counter := 1, async_exc := exc\<rparr>"

definition three_threads :: py_state where
  "three_threads =
     \<lparr>autoTSSkey = None, Py_tss_tstate = None, autoInterpreterState = True,
      tstates = [3 \<mapsto> bound_threadstate 3 5 None, 2 \<mapsto> bound_threadstate 2 7 (Some 40),
                 1 \<mapsto> bound_threadstate 1 7 None],
      threads = [3, 2, 1], next_unique_id = 3, gil_locked = False,
      eval_breaker_async_exc = False, refcnts = (\<lambda>ob. 1),
      sys_profiling_threads = 0, sys_tracing_threads = 0, on_delete_calls = 0,
      chunks = []\<rparr>"

subsection \<open>The data stack of a thread state\<close>

text \<open>
  A chunk starts with its three header fields, each of the size of a pointer, and its
  array \<^verbatim>\<open>data\<close> follows; a pointer has eight bytes.  So the end of a chunk of
  \<open>n\<close> bytes, as a pointer into \<^verbatim>\<open>data\<close>, has the index \<open>n div 8 - 3\<close>.
\<close>

definition DATA_STACK_CHUNK_SIZE :: nat where "DATA_STACK_CHUNK_SIZE = 16 * 1024"

definition MINIMUM_OVERHEAD :: nat where "MINIMUM_OVERHEAD = 1000"

definition sizeof_pointer :: nat where "sizeof_pointer = 8"

definition chunk_limit :: "nat \<Rightarrow> nat \<Rightarrow> stack_ptr" where
  "chunk_limit chunk size_in_bytes = (chunk, size_in_bytes div sizeof_pointer - 3)"

text \<open>
  \<^verbatim>\<open>allocate_chunk\<close>; what \<^verbatim>\<open>_PyObject_VirtualAlloc\<close> returns is a parameter.
\<close>

definition allocate_chunk ::
  "nat option \<Rightarrow> nat \<Rightarrow> nat option \<Rightarrow> chunk_store \<Rightarrow> nat option \<times> chunk_store" where
  "allocate_chunk alloc size_in_bytes prev m =
     (case alloc of
        None \<Rightarrow> (None, m)
      | Some res \<Rightarrow>
          (Some res,
           AList.update res \<lparr>previous = prev, chunk_size = size_in_bytes, chunk_top = 0\<rparr> m))"

text \<open>
  The loop of \<^verbatim>\<open>push_chunk\<close> that doubles \<^verbatim>\<open>allocate_size\<close>.  The size is
  positive when the loop starts; the test for it makes the recursion total.
\<close>

function double_until :: "nat \<Rightarrow> nat \<Rightarrow> nat" where
  "double_until allocate_size need =
     (if 0 < allocate_size \<and> allocate_size < need
      then double_until (allocate_size * 2) need
      else allocate_size)"
  by pat_completeness auto

termination double_until
  by (relation "measure (\<lambda>(a, need). need - a)") auto

declare double_until.simps [simp del]

definition push_chunk ::
  "nat option \<Rightarrow> nat \<Rightarrow> PyThreadState \<times> chunk_store
     \<Rightarrow> stack_ptr option \<times> PyThreadState \<times> chunk_store" where
  "push_chunk alloc n tm =
     (case tm of (tstate, m) \<Rightarrow>
        let allocate_size =
              double_until DATA_STACK_CHUNK_SIZE (sizeof_pointer * (n + MINIMUM_OVERHEAD))
        in case allocate_chunk alloc allocate_size (datastack_chunk tstate) m of
             (None, m1) \<Rightarrow> (None, tstate, m1)
           | (Some new, m1) \<Rightarrow>
               let m2 = (case datastack_chunk tstate of
                           None \<Rightarrow> m1
                         | Some chunk \<Rightarrow>
                             AList.map_entry chunk
                               (\<lambda>ch. ch\<lparr>chunk_top :=
                                          (case datastack_top tstate of
                                             None \<Rightarrow> 0
                                           | Some p \<Rightarrow> snd p)\<rparr>) m1);
                   res = (new, if datastack_chunk tstate = None then 1 else 0)
               in (Some res,
                   tstate\<lparr>datastack_chunk := Some new,
                          datastack_limit := Some (chunk_limit new allocate_size),
                          datastack_top := Some (fst res, snd res + n)\<rparr>,
                   m2))"

text \<open>
  Modelled from the spec: \<^verbatim>\<open>_PyThreadState_HasStackSpace\<close> is not among the sources.
  The current chunk has room for a frame when the thread state has a chunk and the frame is
  smaller than what is left between \<^verbatim>\<open>datastack_top\<close> and
  \<^verbatim>\<open>datastack_limit\<close>.
\<close>

definition PyThreadState_HasStackSpace :: "PyThreadState \<Rightarrow> nat \<Rightarrow> bool" where
  "PyThreadState_HasStackSpace tstate n =
     (case datastack_top tstate of
        None \<Rightarrow> False
      | Some p \<Rightarrow>
          (case datastack_limit tstate of
             None \<Rightarrow> False
           | Some l \<Rightarrow> fst p = fst l \<and> int n < int (snd l) - int (snd p)))"

definition PyThreadState_PushFrame ::
  "nat option \<Rightarrow> nat \<Rightarrow> PyThreadState \<times> chunk_store
     \<Rightarrow> stack_ptr option \<times> PyThreadState \<times> chunk_store" where
  "PyThreadState_PushFrame alloc n tm =
     (case tm of (tstate, m) \<Rightarrow>
        if PyThreadState_HasStackSpace tstate n
        then (datastack_top tstate,
              tstate\<lparr>datastack_top := map_option (\<lambda>p. (fst p, snd p + n)) (datastack_top tstate)\<rparr>,
              m)
        else push_chunk alloc n tm)"

text \<open>
  \<^verbatim>\<open>_PyThreadState_PopFrame\<close>.  Its assertion that the chunk to free has a previous
  chunk is part of the model: when it fails, that is the result.  So is the assertion
  that the thread state has a chunk.
\<close>

definition PyThreadState_PopFrame ::
  "stack_ptr \<Rightarrow> PyThreadState \<times> chunk_store \<Rightarrow> abort + (PyThreadState \<times> chunk_store)" where
  "PyThreadState_PopFrame frame tm =
     (case tm of (tstate, m) \<Rightarrow>
        case datastack_chunk tstate of
          None \<Rightarrow> Inl (Failed (Assertion_failed ''tstate->datastack_chunk''))
        | Some chunk \<Rightarrow>
            if frame = (chunk, 0)
            then (case map_of m chunk of
                    None \<Rightarrow> Inl Invalid_pointer
                  | Some ch \<Rightarrow>
                      (case previous ch of
                         None \<Rightarrow> Inl (Failed (Assertion_failed ''previous''))
                       | Some prev \<Rightarrow>
                           (case map_of m prev of
                              None \<Rightarrow> Inl Invalid_pointer
                            | Some pch \<Rightarrow>
                                Inr (tstate\<lparr>datastack_top := Some (prev, chunk_top pch),
                                            datastack_chunk := Some prev,
                                            datastack_limit :=
                                              Some (chunk_limit prev (chunk_size pch))\<rparr>,
                                     AList.delete chunk m))))
            else Inr (tstate\<lparr>datastack_top := Some frame\<rparr>, m))"

text \<open>
  A run of pushes and pops on one thread state.  The caller keeps the frames it was given,
  the newest first, and a pop gives back the newest: the run is well nested.  A push
  carries the size of the frame and what the allocator answers if it is asked for a chunk;
  a run in which the allocator hands out a chunk that is in use, or that pops with no frame
  left, is ill formed.
\<close>

datatype frame_op = Push nat "nat option" | Pop

fun run_frames ::
  "frame_op list \<Rightarrow> PyThreadState \<times> chunk_store \<times> stack_ptr list
     \<Rightarrow> abort + (PyThreadState \<times> chunk_store \<times> stack_ptr list)" where
  "run_frames [] st = Inr st"
| "run_frames (Push n alloc # ops) (tstate, m, frames) =
     (if \<not> PyThreadState_HasStackSpace tstate n
         \<and> (case alloc of None \<Rightarrow> False | Some a \<Rightarrow> map_of m a \<noteq> None)
      then Inl Ill_formed
      else case PyThreadState_PushFrame alloc n (tstate, m) of
             (None, tstate1, m1) \<Rightarrow> run_frames ops (tstate1, m1, frames)
           | (Some frame, tstate1, m1) \<Rightarrow> run_frames ops (tstate1, m1, frame # frames))"
| "run_frames (Pop # ops) (tstate, m, []) = Inl Ill_formed"
| "run_frames (Pop # ops) (tstate, m, frame # frames) =
     (case PyThreadState_PopFrame frame (tstate, m) of
        Inl e \<Rightarrow> Inl e
      | Inr (tstate1, m1) \<Rightarrow> run_frames ops (tstate1, m1, frames))"

text \<open>
  The sizes of frames the model is exact for: those on which the arithmetic of
  \<^verbatim>\<open>push_chunk\<close> stays within an \<^verbatim>\<open>int\<close>.
\<close>

definition frame_size_ok :: "nat \<Rightarrow> bool" where
  "frame_size_ok n = (int (sizeof_pointer * (n + MINIMUM_OVERHEAD)) * 2 \<le> INT_MAX)"

fun frame_sizes_ok :: "frame_op list \<Rightarrow> bool" where
  "frame_sizes_ok [] = True"
| "frame_sizes_ok (Push n alloc # ops) = (frame_size_ok n \<and> frame_sizes_ok ops)"
| "frame_sizes_ok (Pop # ops) = frame_sizes_ok ops"

definition root_alive :: "nat \<Rightarrow> chunk_store \<Rightarrow> bool" where
  "root_alive r m = (case map_of m r of None \<Rightarrow> False | Some ch \<Rightarrow> previous ch = None)"

text \<open>
  The shape of the data stack between two calls.  The chunks of the thread state, from the
  current one to the root, are distinct and linked by \<^verbatim>\<open>previous\<close>.  The frames in
  the current chunk lie at or below \<^verbatim>\<open>datastack_top\<close>, at indices that do not rise
  from the newest frame to the oldest, and \<^verbatim>\<open>datastack_top\<close> is below the end of
  the chunk.  The oldest frame of a chunk that is not the root is at index 0 and the other
  frames of the chunk are above it; below it come the frames of the previous chunk, under
  the top that was saved in that chunk.  The frames of the root chunk are all above
  index 0.
\<close>

fun stack_ok :: "(nat \<rightharpoonup> PyStackChunk) \<Rightarrow> nat list \<Rightarrow> stack_ptr list \<Rightarrow> nat \<Rightarrow> bool" where
  "stack_ok M [] fs t = False"
| "stack_ok M [r] fs t =
     ((\<exists>ch. M r = Some ch \<and> previous ch = None)
      \<and> (\<forall>f \<in> set fs. fst f = r) \<and> sorted_wrt (\<ge>) (t # map snd fs @ [1]))"
| "stack_ok M (c # c' # cs) fs t =
     (\<exists>ch ch' fs1 fs2.
        M c = Some ch \<and> previous ch = Some c' \<and> c \<notin> set (c' # cs) \<and> M c' = Some ch'
        \<and> fs = fs1 @ (c, 0) # fs2 \<and> (\<forall>f \<in> set fs1. fst f = c)
        \<and> sorted_wrt (\<ge>) (t # map snd fs1 @ [1])
        \<and> chunk_top ch' < snd (chunk_limit c' (chunk_size ch'))
        \<and> stack_ok M (c' # cs) fs2 (chunk_top ch'))"

definition datastack_inv :: "nat \<Rightarrow> PyThreadState \<times> chunk_store \<times> stack_ptr list \<Rightarrow> bool" where
  "datastack_inv r st =
     (case st of (tstate, m, fs) \<Rightarrow>
        \<exists>c cs t ch.
          datastack_chunk tstate = Some c \<and> datastack_top tstate = Some (c, t)
          \<and> map_of m c = Some ch
          \<and> datastack_limit tstate = Some (chunk_limit c (chunk_size ch))
          \<and> t < snd (chunk_limit c (chunk_size ch)) \<and> last (c # cs) = r
          \<and> stack_ok (map_of m) (c # cs) fs t \<and> dom (map_of m) = set (c # cs))"

subsection \<open>The states in which a thread calls Ensure\<close>

text \<open>
  The counter of a thread state, read through its pointer.
\<close>

definition gilstate_counter_of :: "nat \<Rightarrow> py_state \<Rightarrow> int" where
  "gilstate_counter_of tstate s =
     (case tstates s tstate of None \<Rightarrow> 0 | Some ts \<Rightarrow> gilstate_counter ts)"

text \<open>
  An OS thread that has a thread state bound in \<^verbatim>\<open>autoTSSkey\<close>.  The thread state was
  not created by Ensure, so its counter is at least 1, and it is marked as the one bound
  for the GIL state.  Either it is the current thread state of the thread, or the thread
  has no current thread state: then the GIL is free, and the thread state is detached and
  not active.
\<close>

definition bound_entry :: "nat \<Rightarrow> py_state \<Rightarrow> bool" where
  "bound_entry tstate s =
     (gilstate_tss_get s = Some tstate
      \<and> (case tstates s tstate of
            None \<Rightarrow> False
          | Some ts \<Rightarrow>
              1 \<le> gilstate_counter ts
              \<and> (current_fast_get s = Some tstate
                 \<or> (current_fast_get s = None \<and> \<not> gil_locked s
                    \<and> bound_gilstate (status ts) \<and> \<not> active (status ts)
                    \<and> attached ts = Py_THREAD_DETACHED))))"

text \<open>
  An OS thread that has no thread state: none bound in \<^verbatim>\<open>autoTSSkey\<close> and none
  current.  The GIL is free, \<^verbatim>\<open>autoInterpreterState\<close> is set, the allocator answers
  with a block that is not in use, and if the interpreter has no thread state at all, its
  embedded thread state is the template.
\<close>

definition unbound_entry :: "nat option \<Rightarrow> py_state \<Rightarrow> bool" where
  "unbound_entry alloc s =
     (gilstate_tss_get s = None \<and> current_fast_get s = None \<and> \<not> gil_locked s
      \<and> autoInterpreterState s
      \<and> (case alloc of
            None \<Rightarrow> False
          | Some a \<Rightarrow> tstates s a = None \<and> a \<noteq> initial_thread)
      \<and> (if threads s = [] then tstates s initial_thread = Some PyThreadState_INIT else True))"

text \<open>
  The thread state that \<^verbatim>\<open>PyGILState_Ensure\<close> has created when it returns: bound to
  the OS thread, attached, and with the counter 1.
\<close>

definition auto_created :: "nat \<Rightarrow> nat \<Rightarrow> nat \<Rightarrow> PyThreadState" where
  "auto_created ident thread_ident native_id =
     PyThreadState_INIT
       \<lparr>status := status_INIT\<lparr>initialized := True, bound := True, bound_gilstate := True,
                              active := True\<rparr>,
        tstate_id := ident, thread_id := thread_ident, native_thread_id := native_id,
        tstate_whence := WHENCE_GILSTATE, attached := Py_THREAD_ATTACHED,
        gilstate_counter := 1\<rparr>"

text \<open>
  A runtime whose only thread state, at the address 1, is detached, and has the counter 1;
  the same runtime seen from the OS thread 7 that the thread state belongs to, and from an
  OS thread that has no thread state.
\<close>

definition one_thread :: "nat option \<Rightarrow> py_state" where
  "one_thread tss =
     \<lparr>autoTSSkey = tss, Py_tss_tstate = None, autoInterpreterState = True,
      tstates = [1 \<mapsto> (bound_threadstate 1 7 None)
                           \<lparr>status := status_INIT\<lparr>initialized := True, bound := True,
                                                  bound_gilstate := True\<rparr>\<rparr>,
                 initial_thread \<mapsto> PyThreadState_INIT],
      threads = [1], next_unique_id = 1, gil_locked = False,
      eval_breaker_async_exc = False, refcnts = (\<lambda>ob. 1),
      sys_profiling_threads = 0, sys_tracing_threads = 0, on_delete_calls = 0,
      chunks = []\<rparr>"

text \<open>
  The state in which the first \<^verbatim>\<open>PyGILState_Ensure\<close> of a thread without thread
  state returns: the new thread state is at the head of the interpreter's list, bound in
  \<^verbatim>\<open>autoTSSkey\<close> and current, and the GIL is held.  The new thread state is the
  embedded one if the interpreter had no thread state, and the allocated block otherwise.
\<close>

definition new_tstate_address :: "nat option \<Rightarrow> py_state \<Rightarrow> nat" where
  "new_tstate_address alloc s =
     (case alloc of
        None \<Rightarrow> initial_thread
      | Some a \<Rightarrow> if threads s = [] then initial_thread else a)"

definition ensured :: "nat \<Rightarrow> nat \<Rightarrow> nat \<Rightarrow> py_state \<Rightarrow> py_state" where
  "ensured tcur thread_ident native_id s =
     s\<lparr>tstates := (tstates s)(tcur \<mapsto> auto_created (next_unique_id s + 1) thread_ident native_id),
       next_unique_id := next_unique_id s + 1, threads := tcur # threads s,
       autoTSSkey := Some tcur, Py_tss_tstate := Some tcur, gil_locked := True\<rparr>"

text \<open>
  What the thread does between its calls of Ensure and its calls of Release is outside the
  two functions.  \<^verbatim>\<open>running tstate w cs\<close> is the state in which the thread then
  calls Release: its thread state holds what the thread state \<open>w\<close> holds (the dictionary,
  the exceptions, the profile and trace functions and their objects, the hooks of
  asynchronous generators, the context, the \<^verbatim>\<open>on_delete\<close> callback and the data
  stack), and \<open>cs\<close> is the memory of the stack chunks.  The counter and the status of the
  thread state are as Ensure left them.
\<close>

definition holding :: "PyThreadState \<Rightarrow> PyThreadState \<Rightarrow> PyThreadState" where
  "holding w ts =
     ts\<lparr>dict := dict w, async_exc := async_exc w, current_exception := current_exception w,
        exc_value := exc_value w, c_profilefunc := c_profilefunc w,
        c_tracefunc := c_tracefunc w, c_profileobj := c_profileobj w,
        c_traceobj := c_traceobj w, async_gen_firstiter := async_gen_firstiter w,
        async_gen_finalizer := async_gen_finalizer w, tstate_context := tstate_context w,
        on_delete := on_delete w, datastack_chunk := datastack_chunk w,
        datastack_top := datastack_top w, datastack_limit := datastack_limit w\<rparr>"

definition running :: "nat \<Rightarrow> PyThreadState \<Rightarrow> chunk_store \<Rightarrow> py_state \<Rightarrow> py_state" where
  "running tstate w cs s = (tstate_update tstate (holding w) s)\<lparr>chunks := cs\<rparr>"

text \<open>
  A thread state that holds the dictionary 40 and the exception 41, has an
  \<^verbatim>\<open>on_delete\<close> callback, and whose data stack is the chunk 101, which follows the
  chunk 100; and the memory of these two chunks.
\<close>

definition busy_thread :: PyThreadState where
  "busy_thread =
     PyThreadState_INIT
       \<lparr>dict := Some 40, current_exception := Some 41, on_delete := True,
        datastack_chunk := Some 101,
        datastack_top := Some (101, 3), datastack_limit := Some (101, 16)\<rparr>"

definition two_chunks :: chunk_store where
  "two_chunks = [(100, \<lparr>previous = None, chunk_size = 16, chunk_top = 10\<rparr>),
                 (101, \<lparr>previous = Some 100, chunk_size = 16, chunk_top = 0\<rparr>)]"

chapter \<open>Properties\<close>

section \<open>Time conversions\<close>













section \<open>Hash secret\<close>

lemma and_0xff: "(w::32 word) AND 0xff = take_bit 8 w"
proof -
  have "(0xff::32 word) = mask 8"
    by (simp add: mask_eq_exp_minus_1)
  then show ?thesis
    by (simp add: take_bit_eq_mask)
qed

lemma unat_lcg_byte:
  "unat (ucast (drop_bit 16 (x::32 word) AND 0xff) :: 8 word) = lcg_byte (unat x)"
proof -
  have "unat (ucast (take_bit 8 (drop_bit 16 x)) :: 8 word) = take_bit 8 (drop_bit 16 (unat x))"
    by (simp add: unsigned_ucast_eq unsigned_take_bit_eq unat_drop_bit_eq)
  then show ?thesis
    by (simp add: and_0xff lcg_byte_def take_bit_eq_mod drop_bit_eq_div)
qed

lemma lcg_state_shift:
  "lcg_state x0 (Suc n) = lcg_state ((x0 * 214013 + 2531011) mod 2 ^ 32) n"
  by (induction n) simp_all

lemma unat_lcg_step:
  "unat ((x::32 word) * 214013 + 2531011) = (unat x * 214013 + 2531011) mod 2 ^ 32"
  by (simp add: unat_word_ariths mod_simps)

lemma length_lcg_urandom: "length (lcg_urandom x n) = n"
  by (induction n arbitrary: x) (simp_all add: Let_def)

lemma lcg_urandom_nth:
  "i < n \<Longrightarrow> unat (lcg_urandom x n ! i) = lcg_byte (lcg_state (unat x) (Suc i))"
proof (induction n arbitrary: x i)
  case 0
  then show ?case by simp
next
  case (Suc n)
  show ?case
  proof (cases i)
    case 0
    then show ?thesis
      by (simp add: Let_def unat_lcg_byte unat_lcg_step)
  next
    case (Suc j)
    with Suc.prems have "j < n" by simp
    from Suc.IH [OF this, of "x * 214013 + 2531011"] Suc show ?thesis
      by (simp add: Let_def unat_lcg_step lcg_state_shift del: lcg_state.simps)
  qed
qed

lemma unat_seed_downcast:
  assumes "(seed::64 word) \<le> 4294967295"
  shows "unat (ucast seed :: 32 word) = unat seed"
proof -
  have "unat seed \<le> 4294967295"
    using assms by (simp add: word_le_nat_alt)
  then show ?thesis
    by (simp add: unsigned_ucast_eq take_bit_eq_mod)
qed

text \<open>
  C7.  When the secret is not yet initialised and the environment variable holds a string
  (not empty, not \<open>random\<close>) that \<^verbatim>\<open>strtoul\<close> parses completely as the number
  \<open>seed\<close>: seed 0 zeroes every byte of the secret; every seed up to 4294967295 is
  accepted and every seed from 4294967296 on is rejected with a fatal error; an accepted
  nonzero seed fills the secret with bits 23..16 of the successive states
  \<open>x(n+1) = (x(n) * 214013 + 2531011) mod 2^32\<close> of the generator started at the seed.
\<close>

theorem PyRandom_Init_seed:
  assumes "\<not> HashSecret_Initialized st"
    and "e \<noteq> []" and "e \<noteq> ''random''"
    and "strtoul e = (seed, [], erange)"
  shows "(seed = 0 \<longrightarrow>
            (\<exists>st'. PyRandom_Init n (Some e) strtoul os_urandom st = Inr st'
                  \<and> HashSecret st' = replicate n 0))
       \<and> (seed \<le> 4294967295 \<longrightarrow>
            (\<exists>st'. PyRandom_Init n (Some e) strtoul os_urandom st = Inr st'))
       \<and> (4294967296 \<le> seed \<longrightarrow>
            (\<exists>msg. PyRandom_Init n (Some e) strtoul os_urandom st = Inl (Py_FatalError msg)))
       \<and> (seed \<noteq> 0 \<and> seed \<le> 4294967295 \<longrightarrow>
            (\<exists>st'. PyRandom_Init n (Some e) strtoul os_urandom st = Inr st'
                  \<and> length (HashSecret st') = n
                  \<and> (\<forall>i<n. unat (HashSecret st' ! i) = lcg_byte (lcg_state (unat seed) (Suc i)))))"
proof -
  have small: "seed \<le> 4294967295 \<Longrightarrow> \<not> seed > 4294967295 \<and> seed \<noteq> ULONG_MAX"
    by (auto simp: ULONG_MAX_def)
  have big: "4294967296 \<le> seed \<Longrightarrow> seed > 4294967295"
    by (simp add: word_le_nat_alt word_less_nat_alt)
  show ?thesis
    using assms small big
    by (auto simp: PyRandom_Init_def Let_def length_lcg_urandom lcg_urandom_nth unat_seed_downcast)
qed

theorem PyRandom_Init_seed_witness:
  "\<exists>st'. PyRandom_Init 4 (Some ''42'') (\<lambda>_. (42, [], False)) (\<lambda>n. replicate n 7)
           \<lparr>HashSecret_Initialized = False, HashSecret = []\<rparr> = Inr st'
       \<and> length (HashSecret st') = 4
       \<and> (\<forall>i<4. unat (HashSecret st' ! i) = lcg_byte (lcg_state 42 (Suc i)))"
  using PyRandom_Init_seed [of "\<lparr>HashSecret_Initialized = False, HashSecret = []\<rparr>" "''42''"
      "\<lambda>_. (42, [], False)" 42 False 4 "\<lambda>n. replicate n 7"]
  by simp

section \<open>Cycle collector\<close>

subsection \<open>\<^verbatim>\<open>gc.collect\<close> during a collection\<close>

text \<open>
  C9.  When \<^verbatim>\<open>collecting\<close> is set, \<^verbatim>\<open>gc_collect\<close> returns 0 and the whole state of
  the collector (the generation lists, their counts, every object's \<^verbatim>\<open>gc_refs\<close>) is
  as before.
\<close>

theorem gc_collect_while_collecting:
  assumes "collecting s"
  shows "gc_collect s = Inr (0, s)"
  using assms by (simp add: gc_collect_def)

theorem gc_collect_while_collecting_witness:
  "gc_collect ((two_cycle False)\<lparr>collecting := True\<rparr>) = Inr (0, (two_cycle False)\<lparr>collecting := True\<rparr>)"
  using gc_collect_while_collecting [of "(two_cycle False)\<lparr>collecting := True\<rparr>"]
  by simp

subsection \<open>A cycle with a finalizer\<close>



subsection \<open>Reference-count differencing and the partition of \<^verbatim>\<open>young\<close>\<close>

lemma nth_set_gc_refs:
  "set_gc_refs g v h ! g' = (if g' = g \<and> g < length h then (h ! g)\<lparr>gc_refs := v\<rparr> else h ! g')"
  by (cases "g < length h") (auto simp: set_gc_refs_def list_update_beyond)

lemma length_set_gc_refs [simp]: "length (set_gc_refs g v h) = length h"
  by (simp add: set_gc_refs_def)

lemma gc_refs_set_gc_refs:
  "gc_refs (set_gc_refs g v h ! g') = (if g' = g \<and> g < length h then v else gc_refs (h ! g'))"
  by (simp add: nth_set_gc_refs)

lemma fields_set_gc_refs [simp]:
  "tp_is_gc (set_gc_refs g v h ! g') = tp_is_gc (h ! g')"
  "ob_refcnt (set_gc_refs g v h ! g') = ob_refcnt (h ! g')"
  "referents (set_gc_refs g v h ! g') = referents (h ! g')"
  by (simp_all add: nth_set_gc_refs)

lemma PyObject_IS_GC_set_gc_refs [simp]:
  "PyObject_IS_GC (set_gc_refs g v h) op = PyObject_IS_GC h op"
  by (simp add: PyObject_IS_GC_def)

text \<open>
  A run of \<^verbatim>\<open>visit_decref\<close> over a sequence of visits lowers a positive
  \<^verbatim>\<open>gc_refs\<close> by the number of visits, stopping at 0.
\<close>

definition decref_by :: "nat \<Rightarrow> int \<Rightarrow> int" where
  "decref_by n v = (if 0 < v then max 0 (v - int n) else v)"

lemma decref_by_0 [simp]: "decref_by 0 v = v"
  by (simp add: decref_by_def)

lemma decref_by_Suc: "0 < v \<Longrightarrow> decref_by (Suc n) v = decref_by n (v - 1)"
  by (auto simp: decref_by_def max_def)

lemma fold_visit_decref:
  "length (fold visit_decref vs h) = length h
   \<and> (\<forall>g. tp_is_gc (fold visit_decref vs h ! g) = tp_is_gc (h ! g)
        \<and> ob_refcnt (fold visit_decref vs h ! g) = ob_refcnt (h ! g)
        \<and> referents (fold visit_decref vs h ! g) = referents (h ! g)
        \<and> gc_refs (fold visit_decref vs h ! g)
            = (if PyObject_IS_GC h g then decref_by (count_list vs g) (gc_refs (h ! g))
               else gc_refs (h ! g)))"
proof (induction vs arbitrary: h)
  case Nil
  show ?case by simp
next
  case (Cons v vs)
  show ?case
  proof (cases "PyObject_IS_GC h v \<and> 0 < gc_refs (h ! v)")
    case True
    then have step: "visit_decref v h = set_gc_refs v (gc_refs (h ! v) - 1) h"
      by (simp add: visit_decref_def)
    from True have lt: "v < length h"
      by (simp add: PyObject_IS_GC_def)
    show ?thesis
      using Cons.IH [of "set_gc_refs v (gc_refs (h ! v) - 1) h"] True lt
      by (auto simp: step gc_refs_set_gc_refs decref_by_Suc)
  next
    case False
    then have step: "visit_decref v h = h"
      by (auto simp: visit_decref_def)
    have "PyObject_IS_GC h v \<Longrightarrow> decref_by n (gc_refs (h ! v)) = gc_refs (h ! v)" for n
      using False by (simp add: decref_by_def)
    then show ?thesis
      using Cons.IH [of h] by (auto simp: step)
  qed
qed

lemma subtract_refs_eq:
  "subtract_refs young h = fold visit_decref (concat (map (\<lambda>gc. referents (h ! gc)) young)) h"
proof (induction young arbitrary: h)
  case Nil
  show ?case by (simp add: subtract_refs_def)
next
  case (Cons gc young)
  let ?h1 = "fold visit_decref (referents (h ! gc)) h"
  have same: "referents (?h1 ! g) = referents (h ! g)" for g
    using fold_visit_decref [of "referents (h ! gc)" h] by simp
  have "subtract_refs (gc # young) h = subtract_refs young ?h1"
    by (simp add: subtract_refs_def)
  also have "\<dots> = fold visit_decref (concat (map (\<lambda>gc. referents (?h1 ! gc)) young)) ?h1"
    by (rule Cons.IH)
  finally show ?case
    by (simp add: same)
qed

lemma update_refs_nth:
  "length (update_refs young h) = length h
   \<and> (\<forall>g. tp_is_gc (update_refs young h ! g) = tp_is_gc (h ! g)
        \<and> ob_refcnt (update_refs young h ! g) = ob_refcnt (h ! g)
        \<and> referents (update_refs young h ! g) = referents (h ! g)
        \<and> gc_refs (update_refs young h ! g)
            = (if g \<in> set young \<and> g < length h then ob_refcnt (h ! g) else gc_refs (h ! g)))"
proof (induction young arbitrary: h)
  case Nil
  show ?case by (simp add: update_refs_def)
next
  case (Cons gc young)
  have unfold: "update_refs (gc # young) h = update_refs young (set_gc_refs gc (ob_refcnt (h ! gc)) h)"
    by (simp add: update_refs_def)
  show ?case
    using Cons.IH [of "set_gc_refs gc (ob_refcnt (h ! gc)) h"]
    by (auto simp: unfold gc_refs_set_gc_refs)
qed


lemma gc_refs_after_subtract_refs:
  assumes "young_ok h young"
  defines "h1 \<equiv> subtract_refs young (update_refs young h)"
  shows "length h1 = length h"
    and "\<And>g. tp_is_gc (h1 ! g) = tp_is_gc (h ! g)"
    and "\<And>g. referents (h1 ! g) = referents (h ! g)"
    and "\<And>g. g \<in> set young \<Longrightarrow> gc_refs (h1 ! g) = outside_refs h young g"
    and "\<And>g. g \<in> set young \<Longrightarrow> 0 \<le> outside_refs h young g"
    and "\<And>g. g \<notin> set young \<Longrightarrow> PyObject_IS_GC h g \<Longrightarrow> gc_refs (h1 ! g) = gc_refs (h ! g)"
proof -
  let ?u = "update_refs young h"
  let ?vs = "concat (map (\<lambda>gc. referents (?u ! gc)) young)"
  have u: "length ?u = length h" "\<And>g. tp_is_gc (?u ! g) = tp_is_gc (h ! g)"
    "\<And>g. ob_refcnt (?u ! g) = ob_refcnt (h ! g)" "\<And>g. referents (?u ! g) = referents (h ! g)"
    "\<And>g. gc_refs (?u ! g) = (if g \<in> set young \<and> g < length h then ob_refcnt (h ! g) else gc_refs (h ! g))"
    using update_refs_nth [of young h] by simp_all
  have h1: "h1 = fold visit_decref ?vs ?u"
    by (simp add: h1_def subtract_refs_eq)
  have vs: "count_list ?vs g = internal_refs h young g" for g
    by (simp add: internal_refs_def u)
  have gc_u: "PyObject_IS_GC ?u g = PyObject_IS_GC h g" for g
    by (simp add: PyObject_IS_GC_def u)
  note f = fold_visit_decref [of ?vs ?u, folded h1]
  show "length h1 = length h" and "\<And>g. tp_is_gc (h1 ! g) = tp_is_gc (h ! g)"
    and "\<And>g. referents (h1 ! g) = referents (h ! g)"
    using f u by simp_all
  have refs: "gc_refs (h1 ! g) = (if PyObject_IS_GC h g
        then decref_by (internal_refs h young g) (gc_refs (?u ! g)) else gc_refs (?u ! g))" for g
    using f by (simp add: vs gc_u)
  show out: "0 \<le> outside_refs h young g" if "g \<in> set young" for g
    using assms(1) that by (simp add: young_ok_def outside_refs_def)
  show "gc_refs (h1 ! g) = outside_refs h young g" if "g \<in> set young" for g
  proof -
    from assms(1) that have gc: "PyObject_IS_GC h g" and le: "int (internal_refs h young g) \<le> ob_refcnt (h ! g)"
      by (simp_all add: young_ok_def)
    then have "gc_refs (?u ! g) = ob_refcnt (h ! g)"
      using that by (simp add: u PyObject_IS_GC_def)
    with gc le show ?thesis
      by (auto simp: refs decref_by_def outside_refs_def max_def)
  qed
  show "gc_refs (h1 ! g) = gc_refs (h ! g)" if "g \<notin> set young" "PyObject_IS_GC h g" for g
  proof -
    from assms(1) that have "gc_refs (h ! g) = GC_REACHABLE \<or> gc_refs (h ! g) = GC_UNTRACKED"
      by (simp add: young_ok_def PyObject_IS_GC_def)
    then have "\<not> 0 < gc_refs (h ! g)"
      by (auto simp: GC_REACHABLE_def GC_UNTRACKED_def)
    then show ?thesis
      using that by (simp add: refs u decref_by_def)
  qed
qed

lemma gc_markers_distinct:
  "GC_REACHABLE \<noteq> 0" "GC_TENTATIVELY_UNREACHABLE \<noteq> 0" "GC_REACHABLE \<noteq> GC_TENTATIVELY_UNREACHABLE"
  "\<not> 0 \<le> GC_TENTATIVELY_UNREACHABLE" "\<not> 0 \<le> GC_REACHABLE" "(1::int) \<noteq> GC_TENTATIVELY_UNREACHABLE"
  "(1::int) \<noteq> GC_REACHABLE"
  by (simp_all add: GC_REACHABLE_def GC_TENTATIVELY_UNREACHABLE_def)

lemma gc_list_remove_absent: "x \<notin> set xs \<Longrightarrow> gc_list_remove x xs = xs"
  by (simp add: gc_list_remove_def)

lemma mu_closed_shrink:
  assumes "mu_closed href young R0 ({gc} \<times> set (c # cs)) (h, scanned, rest, unreachable)"
    and "c \<in> set young \<Longrightarrow> c \<in> set scanned \<or> (c \<in> set rest \<and> 0 < gc_refs (h ! c))"
  shows "mu_closed href young R0 ({gc} \<times> set cs) (h, scanned, rest, unreachable)"
proof -
  have "ca \<in> set scanned \<or> (ca \<in> set rest \<and> 0 < gc_refs (h ! ca)) \<or> (g, ca) \<in> {gc} \<times> set cs"
    if g: "g \<in> set scanned" and ca: "ca \<in> set (referents (href ! g))" "ca \<in> set young" for g ca
  proof -
    from assms(1) g ca
    have "ca \<in> set scanned \<or> (ca \<in> set rest \<and> 0 < gc_refs (h ! ca)) \<or> (g, ca) \<in> {gc} \<times> set (c # cs)"
      unfolding mu_closed_def by blast
    with assms(2) ca show ?thesis
      by auto
  qed
  moreover have "g \<in> set scanned \<or> (g \<in> set rest \<and> 0 < gc_refs (h ! g))" if "g \<in> R0" for g
    using assms(1) that unfolding mu_closed_def by blast
  ultimately show ?thesis
    unfolding mu_closed_def by blast
qed

lemma visit_reachable_inv:
  assumes ctx: "mu_context href young R R0"
    and inv: "mu_inv href young R R0 ({gc} \<times> set (c # cs)) s"
    and gc: "gc \<in> set (fst (snd s))"
    and c: "c \<in> set (referents (href ! gc))"
  shows "mu_inv href young R R0 ({gc} \<times> set cs) (visit_reachable c s) \<and> gc \<in> set (fst (snd (visit_reachable c s)))"
proof -
  obtain h scanned rest unreachable where s: "s = (h, scanned, rest, unreachable)"
    by (cases s) auto
  from inv have shape: "mu_shape href young s" and marks: "mu_marks young R s"
    and closed: "mu_closed href young R0 ({gc} \<times> set (c # cs)) s"
    by (simp_all add: mu_inv_def)
  from gc have gcs: "gc \<in> set scanned" by (simp add: s)
  from marks gcs have gcR: "gc \<in> R" by (simp add: s mu_marks_def)
  have isgc: "PyObject_IS_GC h g = PyObject_IS_GC href g" for g
    using shape by (simp add: s mu_shape_def PyObject_IS_GC_def)
  have cR: "c \<in> set young \<Longrightarrow> c \<in> R"
    using ctx gcR c by (simp add: mu_context_def)
  have part: "distinct (scanned @ rest @ unreachable)" "set scanned \<union> set rest \<union> set unreachable = set young"
    using shape by (simp_all add: s mu_shape_def)
  consider (nogc) "\<not> PyObject_IS_GC h c"
    | (zero) "PyObject_IS_GC h c" "gc_refs (h ! c) = 0"
    | (tent) "PyObject_IS_GC h c" "gc_refs (h ! c) = GC_TENTATIVELY_UNREACHABLE"
    | (other) "PyObject_IS_GC h c" "gc_refs (h ! c) \<noteq> 0" "gc_refs (h ! c) \<noteq> GC_TENTATIVELY_UNREACHABLE"
    by blast
  then show ?thesis
  proof cases
    case nogc
    then have v: "visit_reachable c s = s"
      by (simp add: visit_reachable_def s)
    from nogc ctx have "c \<notin> set young"
      by (auto simp: isgc mu_context_def)
    with closed have "mu_closed href young R0 ({gc} \<times> set cs) s"
      by (auto simp: s mu_closed_def)
    with shape marks gc show ?thesis
      by (simp add: v mu_inv_def)
  next
    case other
    then have v: "visit_reachable c s = s"
      by (simp add: visit_reachable_def s)
    have "c \<in> set scanned \<or> (c \<in> set rest \<and> 0 < gc_refs (h ! c))" if "c \<in> set young"
    proof -
      from that part consider "c \<in> set scanned" | "c \<in> set rest" | "c \<in> set unreachable"
        by blast
      then show ?thesis
      proof cases
        case 1 then show ?thesis by simp
      next
        case 2
        with marks have "0 \<le> gc_refs (h ! c)" by (simp add: s mu_marks_def)
        with other 2 show ?thesis by simp
      next
        case 3
        with marks other show ?thesis by (simp add: s mu_marks_def)
      qed
    qed
    with closed have "mu_closed href young R0 ({gc} \<times> set cs) s"
      unfolding s by (intro mu_closed_shrink) auto
    with shape marks gc show ?thesis
      by (simp add: v mu_inv_def)
  next
    case zero
    then have v: "visit_reachable c s = (set_gc_refs c 1 h, scanned, rest, unreachable)"
      by (simp add: visit_reachable_def s)
    from zero have lt: "c < length h" by (simp add: PyObject_IS_GC_def)
    from zero marks have cy: "c \<in> set young"
      by (auto simp: s mu_marks_def)
    from zero marks have "c \<notin> set scanned" "c \<notin> set unreachable"
      by (auto simp: s mu_marks_def gc_markers_distinct)
    with cy part have crest: "c \<in> set rest" by blast
    have "mu_shape href young (visit_reachable c s)"
      unfolding v using shape by (simp add: s mu_shape_def)
    moreover have "mu_marks young R (visit_reachable c s)"
      unfolding v using marks cR [OF cy] \<open>c \<notin> set scanned\<close> \<open>c \<notin> set unreachable\<close>
      by (auto simp: s mu_marks_def gc_refs_set_gc_refs gc_markers_distinct)
    moreover have "mu_closed href young R0 ({gc} \<times> set cs) (visit_reachable c s)"
      unfolding v using closed crest lt
      by (auto simp: s mu_closed_def gc_refs_set_gc_refs)
    ultimately show ?thesis
      using gcs by (simp add: mu_inv_def v)
  next
    case tent
    from tent have lt: "c < length h" by (simp add: PyObject_IS_GC_def)
    from tent marks have cy: "c \<in> set young"
      by (auto simp: s mu_marks_def)
    from tent marks have ns: "c \<notin> set scanned" and nr: "c \<notin> set rest"
      by (auto simp: s mu_marks_def gc_markers_distinct)
    with cy part have cu: "c \<in> set unreachable" by blast
    have v: "visit_reachable c s = (set_gc_refs c 1 h, scanned, rest @ [c], removeAll c unreachable)"
      using tent ns nr
      by (simp add: visit_reachable_def s gc_list_remove_absent gc_list_append_def
          gc_markers_distinct)
         (simp add: gc_list_remove_def)
    have "mu_shape href young (visit_reachable c s)"
      unfolding v using shape ns nr cu
      by (auto simp: s mu_shape_def distinct_removeAll)
    moreover have "mu_marks young R (visit_reachable c s)"
      unfolding v using marks cR [OF cy] ns nr lt
      by (auto simp: s mu_marks_def gc_refs_set_gc_refs gc_markers_distinct)
    moreover have "mu_closed href young R0 ({gc} \<times> set cs) (visit_reachable c s)"
      unfolding v using closed lt
      by (auto simp: s mu_closed_def gc_refs_set_gc_refs)
    ultimately show ?thesis
      using gcs by (simp add: mu_inv_def v)
  qed
qed

lemma fold_visit_reachable_inv:
  assumes ctx: "mu_context href young R R0"
  shows "mu_inv href young R R0 ({gc} \<times> set cs) s \<Longrightarrow> gc \<in> set (fst (snd s))
         \<Longrightarrow> set cs \<subseteq> set (referents (href ! gc))
         \<Longrightarrow> mu_inv href young R R0 {} (fold visit_reachable cs s)"
proof (induction cs arbitrary: s)
  case Nil
  then show ?case by simp
next
  case (Cons c cs)
  from Cons.prems have c: "c \<in> set (referents (href ! gc))" and sub: "set cs \<subseteq> set (referents (href ! gc))"
    by simp_all
  from visit_reachable_inv [OF ctx Cons.prems(1) Cons.prems(2) c]
  have "mu_inv href young R R0 ({gc} \<times> set cs) (visit_reachable c s)"
    and "gc \<in> set (fst (snd (visit_reachable c s)))"
    by simp_all
  from Cons.IH [OF this sub] show ?case by simp
qed

lemma mu_inv_final:
  assumes ctx: "mu_context href young R R0"
    and least: "\<And>S. R0 \<subseteq> S \<Longrightarrow> (\<forall>g \<in> S. \<forall>c \<in> set (referents (href ! g)). c \<in> set young \<longrightarrow> c \<in> S) \<Longrightarrow> R \<subseteq> S"
    and inv: "mu_inv href young R R0 {} (h, scanned, [], unreachable)"
  shows "set scanned = R \<and> set unreachable = set young - R \<and> distinct (scanned @ unreachable)
       \<and> (\<forall>g \<in> set scanned. gc_refs (h ! g) = GC_REACHABLE)
       \<and> (\<forall>g \<in> set unreachable. gc_refs (h ! g) = GC_TENTATIVELY_UNREACHABLE)"
proof -
  from inv have shape: "mu_shape href young (h, scanned, [], unreachable)"
    and marks: "mu_marks young R (h, scanned, [], unreachable)"
    and closed: "mu_closed href young R0 {} (h, scanned, [], unreachable)"
    by (simp_all add: mu_inv_def)
  have sub: "set scanned \<subseteq> R"
    using marks by (auto simp: mu_marks_def)
  have "R0 \<subseteq> set scanned"
    using closed by (auto simp: mu_closed_def)
  moreover have "\<forall>g \<in> set scanned. \<forall>c \<in> set (referents (href ! g)). c \<in> set young \<longrightarrow> c \<in> set scanned"
    using closed by (auto simp: mu_closed_def)
  ultimately have "R \<subseteq> set scanned"
    by (rule least)
  with sub have eq: "set scanned = R" by blast
  from shape have "distinct (scanned @ unreachable)" "set scanned \<union> set unreachable = set young"
    by (simp_all add: mu_shape_def)
  with eq marks show ?thesis
    by (auto simp: mu_marks_def)
qed

lemma move_unreachable_inv:
  assumes ctx: "mu_context href young R R0"
    and least: "\<And>S. R0 \<subseteq> S \<Longrightarrow> (\<forall>g \<in> S. \<forall>c \<in> set (referents (href ! g)). c \<in> set young \<longrightarrow> c \<in> S) \<Longrightarrow> R \<subseteq> S"
  shows "mu_inv href young R R0 {} (h, scanned, rest, unreachable)
     \<Longrightarrow> move_unreachable h scanned rest unreachable = (h2, young2, unreachable2)
     \<Longrightarrow> set young2 = R \<and> set unreachable2 = set young - R \<and> distinct (young2 @ unreachable2)
       \<and> (\<forall>g \<in> set young2. gc_refs (h2 ! g) = GC_REACHABLE)
       \<and> (\<forall>g \<in> set unreachable2. gc_refs (h2 ! g) = GC_TENTATIVELY_UNREACHABLE)"
proof (induction h scanned rest unreachable rule: move_unreachable.induct)
  case (1 h scanned unreachable)
  from "1.prems" have "mu_inv href young R R0 {} (h2, young2, [], unreachable2)"
    by simp
  from mu_inv_final [OF ctx least this] show ?case .
next
  case (2 h scanned gc rest unreachable)
  let ?s = "(h, scanned, gc # rest, unreachable)"
  from "2.prems"(1) have shape: "mu_shape href young ?s" and marks: "mu_marks young R ?s"
    and closed: "mu_closed href young R0 {} ?s"
    by (simp_all add: mu_inv_def)
  from shape have gcy: "gc \<in> set young" and gcn: "gc \<notin> set scanned" "gc \<notin> set rest" "gc \<notin> set unreachable"
    by (auto simp: mu_shape_def)
  from ctx gcy have "PyObject_IS_GC href gc" by (simp add: mu_context_def)
  with shape have lt: "gc < length h" by (simp add: mu_shape_def PyObject_IS_GC_def)
  from marks have nonneg: "0 \<le> gc_refs (h ! gc)" by (simp add: mu_marks_def)
  show ?case
  proof (cases "gc_refs (h ! gc) \<noteq> 0")
    case True
    with nonneg marks have gcR: "gc \<in> R" by (simp add: mu_marks_def)
    let ?s0 = "(set_gc_refs gc GC_REACHABLE h, scanned @ [gc], rest, unreachable)"
    have refs: "referents (h ! gc) = referents (href ! gc)"
      using shape by (simp add: mu_shape_def)
    have "mu_shape href young ?s0"
      using shape by (auto simp: mu_shape_def)
    moreover have "mu_marks young R ?s0"
      using marks gcR gcn lt gcy
      by (auto simp: mu_marks_def gc_refs_set_gc_refs)
    moreover have "mu_closed href young R0 ({gc} \<times> set (referents (href ! gc))) ?s0"
      using closed gcn lt True nonneg
      by (auto simp: mu_closed_def gc_refs_set_gc_refs)
    ultimately have inv0: "mu_inv href young R R0 ({gc} \<times> set (referents (href ! gc))) ?s0"
      by (simp add: mu_inv_def)
    obtain h3 scanned3 rest3 unreachable3
      where f: "fold visit_reachable (referents (h ! gc)) ?s0 = (h3, scanned3, rest3, unreachable3)"
      by (cases "fold visit_reachable (referents (h ! gc)) ?s0") auto
    from fold_visit_reachable_inv [OF ctx inv0]
    have inv3: "mu_inv href young R R0 {} (h3, scanned3, rest3, unreachable3)"
      by (simp add: f [symmetric] refs)
    from "2.prems"(2) True f
    have "move_unreachable h3 scanned3 rest3 unreachable3 = (h2, young2, unreachable2)"
      by simp
    from "2.IH"(1) [OF True f [symmetric] refl refl inv3 this] show ?thesis .
  next
    case False
    then have zero: "gc_refs (h ! gc) = 0" by simp
    let ?s0 = "(set_gc_refs gc GC_TENTATIVELY_UNREACHABLE h, scanned, rest, gc_list_append gc unreachable)"
    have "mu_shape href young ?s0"
      using shape by (auto simp: mu_shape_def gc_list_append_def)
    moreover have "mu_marks young R ?s0"
      using marks gcn lt gcy
      by (auto simp: mu_marks_def gc_refs_set_gc_refs gc_list_append_def)
    moreover have "mu_closed href young R0 {} ?s0"
    proof -
      have keep: "c \<in> set scanned \<or> (c \<in> set rest \<and> 0 < gc_refs (set_gc_refs gc GC_TENTATIVELY_UNREACHABLE h ! c))"
        if "c \<in> set scanned \<or> (c \<in> set (gc # rest) \<and> 0 < gc_refs (h ! c))" for c
        using that zero by (auto simp: gc_refs_set_gc_refs)
      have "c \<in> set scanned \<or> (c \<in> set (gc # rest) \<and> 0 < gc_refs (h ! c))"
        if "g \<in> set scanned" "c \<in> set (referents (href ! g))" "c \<in> set young" for g c
        using closed that unfolding mu_closed_def by blast
      moreover have "g \<in> set scanned \<or> (g \<in> set (gc # rest) \<and> 0 < gc_refs (h ! g))" if "g \<in> R0" for g
        using closed that unfolding mu_closed_def by blast
      ultimately show ?thesis
        unfolding mu_closed_def using keep by simp
    qed
    ultimately have inv0: "mu_inv href young R R0 {} ?s0"
      by (simp add: mu_inv_def)
    from "2.prems"(2) zero
    have "move_unreachable (set_gc_refs gc GC_TENTATIVELY_UNREACHABLE h) scanned rest
            (gc_list_append gc unreachable) = (h2, young2, unreachable2)"
      by simp
    from "2.IH"(2) [OF _ inv0 this] zero show ?thesis by simp
  qed
qed

text \<open>
  C1.  For a list \<open>young\<close> of distinct tracked objects whose reference counts cover
  the references from inside \<open>young\<close>, all other objects being marked
  \<^verbatim>\<open>GC_REACHABLE\<close> or \<^verbatim>\<open>GC_UNTRACKED\<close>: after \<^verbatim>\<open>update_refs\<close> and
  \<^verbatim>\<open>subtract_refs\<close> the \<^verbatim>\<open>gc_refs\<close> of every object of \<open>young\<close> is the
  number of references to it from outside \<open>young\<close>; \<^verbatim>\<open>move_unreachable\<close> then
  leaves in \<open>young\<close> exactly the objects reachable from outside, directly or through
  other reachable objects, marked \<^verbatim>\<open>GC_REACHABLE\<close>, and puts all the others on
  \<^verbatim>\<open>unreachable\<close>, marked \<^verbatim>\<open>GC_TENTATIVELY_UNREACHABLE\<close>.
\<close>

theorem move_unreachable_partition:
  assumes ok: "young_ok h young"
  shows "(\<forall>gc \<in> set young.
            gc_refs (subtract_refs young (update_refs young h) ! gc) = outside_refs h young gc)
       \<and> (case move_unreachable (subtract_refs young (update_refs young h)) [] young [] of
            (h2, young2, unreachable2) \<Rightarrow>
              set young2 = reachable_from_outside h young
              \<and> set unreachable2 = set young - reachable_from_outside h young
              \<and> distinct (young2 @ unreachable2)
              \<and> (\<forall>gc \<in> set young2. gc_refs (h2 ! gc) = GC_REACHABLE)
              \<and> (\<forall>gc \<in> set unreachable2. gc_refs (h2 ! gc) = GC_TENTATIVELY_UNREACHABLE))"
proof -
  define h1 where "h1 = subtract_refs young (update_refs young h)"
  define R where "R = reachable_from_outside h young"
  define R0 where "R0 = {g \<in> set young. 0 < outside_refs h young g}"
  note a = gc_refs_after_subtract_refs [OF ok, folded h1_def]
  have isgc: "PyObject_IS_GC h1 g = PyObject_IS_GC h g" for g
    by (simp add: PyObject_IS_GC_def a)
  have ctx: "mu_context h1 young R R0"
    unfolding mu_context_def
  proof (intro conjI ballI impI)
    fix g assume "g \<in> set young"
    with ok show "PyObject_IS_GC h1 g" by (simp add: isgc young_ok_def)
  next
    show "R0 \<subseteq> R"
      by (auto simp: R0_def R_def intro: reachable_from_outside.root)
  next
    fix g c assume "g \<in> R" "c \<in> set (referents (h1 ! g))" "c \<in> set young"
    then show "c \<in> R"
      by (auto simp: R_def a intro: reachable_from_outside.step)
  qed
  have least: "R \<subseteq> S"
    if "R0 \<subseteq> S" and cl: "\<forall>g \<in> S. \<forall>c \<in> set (referents (h1 ! g)). c \<in> set young \<longrightarrow> c \<in> S" for S
  proof
    fix g assume "g \<in> R"
    then have "g \<in> reachable_from_outside h young" by (simp add: R_def)
    then show "g \<in> S"
    proof induction
      case (root gc)
      with that(1) show ?case by (auto simp: R0_def)
    next
      case (step gc op)
      with cl show ?case by (auto simp: a)
    qed
  qed
  have inv: "mu_inv h1 young R R0 {} (h1, [], young, [])"
    unfolding mu_inv_def
  proof (intro conjI)
    show "mu_shape h1 young (h1, [], young, [])"
      using ok by (simp add: mu_shape_def young_ok_def)
    have m1: "0 \<le> gc_refs (h1 ! g)" if "g \<in> set young" for g
      using a(4,5) that by simp
    have m2: "g \<in> R" if "g \<in> set young" "0 < gc_refs (h1 ! g)" for g
      using that by (auto simp: R_def a intro: reachable_from_outside.root)
    have m3: "gc_refs (h1 ! g) \<noteq> 0 \<and> gc_refs (h1 ! g) \<noteq> GC_TENTATIVELY_UNREACHABLE"
      if g: "PyObject_IS_GC h1 g" "g \<notin> set young" for g
    proof -
      from g isgc have gc: "PyObject_IS_GC h g" by blast
      with g a(6) have eq: "gc_refs (h1 ! g) = gc_refs (h ! g)" by blast
      from gc g have "g \<in> set [0..<length h]" "tp_is_gc (h ! g)"
        by (simp_all add: PyObject_IS_GC_def)
      with ok g have "gc_refs (h ! g) = GC_REACHABLE \<or> gc_refs (h ! g) = GC_UNTRACKED"
        unfolding young_ok_def by blast
      then show ?thesis
        by (auto simp: eq GC_REACHABLE_def GC_UNTRACKED_def GC_TENTATIVELY_UNREACHABLE_def)
    qed
    show "mu_marks young R (h1, [], young, [])"
      unfolding mu_marks_def using m1 m2 m3 by simp
    show "mu_closed h1 young R0 {} (h1, [], young, [])"
      by (auto simp: mu_closed_def R0_def a)
  qed
  obtain h2 young2 unreachable2 where mv: "move_unreachable h1 [] young [] = (h2, young2, unreachable2)"
    by (cases "move_unreachable h1 [] young []") auto
  from move_unreachable_inv [OF ctx least inv mv] a(4) show ?thesis
    by (simp add: mv h1_def [symmetric] R_def)
qed

theorem move_unreachable_partition_witness:
  "young_ok four_objects [0, 1, 2, 3]
   \<and> reachable_from_outside four_objects [0, 1, 2, 3] = {0, 3}
   \<and> fst (snd (move_unreachable (subtract_refs [0, 1, 2, 3] (update_refs [0, 1, 2, 3] four_objects))
               [] [0, 1, 2, 3] [])) = [3, 0]"
proof -
  have ok: "young_ok four_objects [0, 1, 2, 3]"
    by code_simp
  have mv: "fst (snd (move_unreachable (subtract_refs [0, 1, 2, 3] (update_refs [0, 1, 2, 3] four_objects))
               [] [0, 1, 2, 3] [])) = [3, 0]"
    by code_simp
  from move_unreachable_partition [OF ok] mv show ?thesis
    using ok by (auto split: prod.splits)
qed

subsection \<open>Allocation and the choice of the generation\<close>

















subsection \<open>No object leaves the lists unless it is freed\<close>





































text \<open>
  The count of generation 0 is an \<^verbatim>\<open>int\<close>: at its largest value the increment of the
  allocation wraps to the smallest one, which is not above the threshold, and nothing is
  collected.
\<close>

lemma GC_Malloc_count_wraps:
  "PyObject_GC_Malloc (Some (container 0 [])) count_at_INT_MAX
     = Inr (Some 2, count_at_INT_MAX
              \<lparr>heap := heap count_at_INT_MAX @ [(container 0 [])\<lparr>gc_refs := GC_UNTRACKED\<rparr>],
               generations := [\<lparr>head = [0, 1], threshold = 700, count = - 2147483648\<rparr>,
                               \<lparr>head = [], threshold = 10, count = 0\<rparr>,
                               \<lparr>head = [], threshold = 10, count = 0\<rparr>]\<rparr>)"
  by code_simp

section \<open>Runtime initialisation\<close>

text \<open>
  \<^verbatim>\<open>alloc_for_runtime\<close> has one \<^verbatim>\<open>return\<close>, and it returns 0: the loop is left
  by \<^verbatim>\<open>break\<close> when an allocation fails, and the failure is not reported.
\<close>

lemma alloc_for_runtime_returns_0:
  "fst (alloc_for_runtime allocate_lock locks live) = 0"
  by (simp add: alloc_for_runtime_def split: prod.splits)

text \<open>
  So the test \<^verbatim>\<open>alloc_for_runtime(locks) != 0\<close> of \<^verbatim>\<open>_PyRuntimeState_Init\<close> is
  never true, whatever the allocator does.
\<close>

lemma PyRuntimeState_Init_never_NO_MEMORY_from_locks:
  "PyRuntimeState_Init asserts allocate_lock stack_locks True True rt \<noteq> Inr (PyStatus_NO_MEMORY, rt')"
  by (simp add: PyRuntimeState_Init_def alloc_for_runtime_def Let_def
      split: prod.splits sum.splits)

text \<open>
  Claim C6.  The claim is that a failed lock allocation makes initialisation return the
  no-memory status, after freeing the locks it allocated.  The code does free them, but it
  does not return that status.  When the third call of \<^verbatim>\<open>PyThread_allocate_lock\<close>
  fails, the two locks already allocated are freed and their slots set to NULL, no lock
  is left allocated, and \<^verbatim>\<open>alloc_for_runtime\<close> returns 0; initialisation then goes on
  to \<^verbatim>\<open>init_runtime\<close>.  Without assertions it returns the status OK, with a runtime
  marked initialised whose first two locks are NULL and whose other six are what the stack
  array held; with assertions \<^verbatim>\<open>init_runtime\<close> fails on \<^verbatim>\<open>locks[i] != NULL\<close>.
\<close>

theorem PyRuntimeState_Init_lock_failure:
  "third_lock_fails 2 = None
   \<and> alloc_for_runtime third_lock_fails (replicate 8 (Lock 7)) {}
       = (0, [NULL_lock, NULL_lock, Lock 7, Lock 7, Lock 7, Lock 7, Lock 7, Lock 7], {})
   \<and> PyRuntimeState_Init False third_lock_fails (replicate 8 (Lock 7)) True True fresh_runtime
       = Inr (PyStatus_OK,
              \<lparr>rt_initialized = True,
               rt_locks = [NULL_lock, NULL_lock, Lock 7, Lock 7, Lock 7, Lock 7, Lock 7, Lock 7],
               autoTSSkey_created = True, trashTSSkey_created = True,
               audit_hook_head = None, unicode_next_index = 0, live_locks = {}\<rparr>)
   \<and> PyRuntimeState_Init True third_lock_fails (replicate 8 (Lock 7)) True True fresh_runtime
       = Inl (Assertion_failed ''locks[i] != NULL'')"
  by code_simp

section \<open>Asynchronous exceptions\<close>

lemma SetAsyncExc_from_skip:
  assumes "\<forall>u \<in> set pre. \<exists>us. tstates s u = Some us \<and> thread_id us \<noteq> ident"
  shows "SetAsyncExc_from (pre @ rest) ident exc s = SetAsyncExc_from rest ident exc s"
  using assms by (induction pre) auto

lemma SetAsyncExc_from_hit:
  assumes "tstates s t = Some ts" and "thread_id ts = ident"
  shows "SetAsyncExc_from (t # post) ident exc s =
           Inr (1, s\<lparr>tstates := (tstates s)(t \<mapsto> ts\<lparr>async_exc := exc\<rparr>),
                      refcnts := Py_XDECREF (async_exc ts) (Py_XNewRef exc (refcnts s)),
                      eval_breaker_async_exc := True\<rparr>)"
  using assms by (simp add: Let_def tstate_update_def PyEval_SignalAsyncExc_def)

text \<open>
  Claim C10.  \<^verbatim>\<open>PyThreadState_SetAsyncExc\<close> walks the interpreter's list of thread
  states, all of them allocated.  If \<open>t\<close> is the first thread state of the list whose
  \<^verbatim>\<open>thread_id\<close> is the given id, the call returns 1 and changes the state in three
  places only: the pending asynchronous exception of \<open>t\<close> becomes \<open>exc\<close>, the new
  exception gains a reference and the one that was pending loses one, and the interpreter
  is signalled.  If no thread state of the list has that id, the call returns 0 and the
  state is the one before the call.  With NULL for \<open>exc\<close> the call is accepted as well, and
  the pending exception of \<open>t\<close> is NULL afterwards.
\<close>

theorem PyThreadState_SetAsyncExc_first_match:
  assumes "\<forall>u \<in> set (threads s). tstates s u \<noteq> None"
  shows "(\<forall>pre t post ts.
            threads s = pre @ t # post \<and> tstates s t = Some ts \<and> thread_id ts = ident
            \<and> (\<forall>u \<in> set pre. \<forall>us. tstates s u = Some us \<longrightarrow> thread_id us \<noteq> ident)
            \<longrightarrow> PyThreadState_SetAsyncExc ident exc s =
                  Inr (1, s\<lparr>tstates := (tstates s)(t \<mapsto> ts\<lparr>async_exc := exc\<rparr>),
                             refcnts := Py_XDECREF (async_exc ts) (Py_XNewRef exc (refcnts s)),
                             eval_breaker_async_exc := True\<rparr>)
                \<and> PyThreadState_SetAsyncExc ident None s =
                  Inr (1, s\<lparr>tstates := (tstates s)(t \<mapsto> ts\<lparr>async_exc := None\<rparr>),
                             refcnts := Py_XDECREF (async_exc ts) (refcnts s),
                             eval_breaker_async_exc := True\<rparr>))
         \<and> ((\<forall>u \<in> set (threads s). \<forall>us. tstates s u = Some us \<longrightarrow> thread_id us \<noteq> ident)
            \<longrightarrow> PyThreadState_SetAsyncExc ident exc s = Inr (0, s))"
proof (intro conjI allI impI)
  fix pre t post ts
  assume h: "threads s = pre @ t # post \<and> tstates s t = Some ts \<and> thread_id ts = ident
             \<and> (\<forall>u \<in> set pre. \<forall>us. tstates s u = Some us \<longrightarrow> thread_id us \<noteq> ident)"
  have skip: "\<forall>u \<in> set pre. \<exists>us. tstates s u = Some us \<and> thread_id us \<noteq> ident"
  proof
    fix u assume u: "u \<in> set pre"
    then have "u \<in> set (threads s)" using h by simp
    then obtain us where "tstates s u = Some us" using assms by auto
    then show "\<exists>us. tstates s u = Some us \<and> thread_id us \<noteq> ident" using h u by auto
  qed
  have thr: "threads s = pre @ t # post" and ts: "tstates s t = Some ts"
    and ident: "thread_id ts = ident"
    using h by simp_all
  have call: "PyThreadState_SetAsyncExc ident e s = SetAsyncExc_from (t # post) ident e s" for e
    unfolding PyThreadState_SetAsyncExc_def thr by (rule SetAsyncExc_from_skip [OF skip])
  show "PyThreadState_SetAsyncExc ident exc s =
          Inr (1, s\<lparr>tstates := (tstates s)(t \<mapsto> ts\<lparr>async_exc := exc\<rparr>),
                     refcnts := Py_XDECREF (async_exc ts) (Py_XNewRef exc (refcnts s)),
                     eval_breaker_async_exc := True\<rparr>)"
    unfolding call by (rule SetAsyncExc_from_hit [OF ts ident])
  have "PyThreadState_SetAsyncExc ident None s =
          Inr (1, s\<lparr>tstates := (tstates s)(t \<mapsto> ts\<lparr>async_exc := None\<rparr>),
                     refcnts := Py_XDECREF (async_exc ts) (Py_XNewRef None (refcnts s)),
                     eval_breaker_async_exc := True\<rparr>)"
    unfolding call by (rule SetAsyncExc_from_hit [OF ts ident])
  then show "PyThreadState_SetAsyncExc ident None s =
          Inr (1, s\<lparr>tstates := (tstates s)(t \<mapsto> ts\<lparr>async_exc := None\<rparr>),
                     refcnts := Py_XDECREF (async_exc ts) (refcnts s),
                     eval_breaker_async_exc := True\<rparr>)"
    by (simp add: Py_XNewRef_def)
next
  assume none: "\<forall>u \<in> set (threads s). \<forall>us. tstates s u = Some us \<longrightarrow> thread_id us \<noteq> ident"
  have "\<forall>u \<in> set (threads s). \<exists>us. tstates s u = Some us \<and> thread_id us \<noteq> ident"
    using assms none by fastforce
  from SetAsyncExc_from_skip [OF this, of "[]" exc]
  show "PyThreadState_SetAsyncExc ident exc s = Inr (0, s)"
    by (simp add: PyThreadState_SetAsyncExc_def)
qed

theorem PyThreadState_SetAsyncExc_first_match_witness:
  "list_all (\<lambda>u. tstates three_threads u \<noteq> None) (threads three_threads)
   \<and> PyThreadState_SetAsyncExc 7 (Some 50) three_threads =
       Inr (1, three_threads
                 \<lparr>tstates := (tstates three_threads)(2 \<mapsto> bound_threadstate 2 7 (Some 50)),
                  refcnts := (\<lambda>ob. 1)(50 := 2, 40 := 0),
                  eval_breaker_async_exc := True\<rparr>)
   \<and> PyThreadState_SetAsyncExc 7 None three_threads =
       Inr (1, three_threads
                 \<lparr>tstates := (tstates three_threads)(2 \<mapsto> bound_threadstate 2 7 None),
                  refcnts := (\<lambda>ob. 1)(40 := 0),
                  eval_breaker_async_exc := True\<rparr>)
   \<and> PyThreadState_SetAsyncExc 9 (Some 50) three_threads = Inr (0, three_threads)"
proof -
  have valid: "\<forall>u \<in> set (threads three_threads). tstates three_threads u \<noteq> None"
    by (simp add: three_threads_def)
  have hit: "threads three_threads = [3] @ 2 # [1]
             \<and> tstates three_threads 2 = Some (bound_threadstate 2 7 (Some 40))
             \<and> thread_id (bound_threadstate 2 7 (Some 40)) = 7
             \<and> (\<forall>u \<in> set [3]. \<forall>us. tstates three_threads u = Some us \<longrightarrow> thread_id us \<noteq> 7)"
    by (simp add: three_threads_def bound_threadstate_def)
  have miss: "\<forall>u \<in> set (threads three_threads).
                \<forall>us. tstates three_threads u = Some us \<longrightarrow> thread_id us \<noteq> 9"
    by (simp add: three_threads_def bound_threadstate_def)
  have upd: "bound_threadstate 2 7 (Some 40)\<lparr>async_exc := e\<rparr> = bound_threadstate 2 7 e" for e
    by (simp add: bound_threadstate_def)
  have rc: "refcnts three_threads = (\<lambda>ob. 1)"
    by (simp add: three_threads_def)
  have acc: "async_exc (bound_threadstate 2 7 (Some 40)) = Some 40"
    by (simp add: bound_threadstate_def)
  note first = PyThreadState_SetAsyncExc_first_match [OF valid, of 7 "Some 50",
      THEN conjunct1, rule_format, OF hit]
  have a: "PyThreadState_SetAsyncExc 7 (Some 50) three_threads =
       Inr (1, three_threads
                 \<lparr>tstates := (tstates three_threads)(2 \<mapsto> bound_threadstate 2 7 (Some 50)),
                  refcnts := Py_XDECREF (Some 40) (Py_XNewRef (Some 50) (\<lambda>ob. 1)),
                  eval_breaker_async_exc := True\<rparr>)
     \<and> PyThreadState_SetAsyncExc 7 None three_threads =
       Inr (1, three_threads
                 \<lparr>tstates := (tstates three_threads)(2 \<mapsto> bound_threadstate 2 7 None),
                  refcnts := Py_XDECREF (Some 40) (\<lambda>ob. 1),
                  eval_breaker_async_exc := True\<rparr>)"
    using first by (simp only: upd acc rc)
  have b: "PyThreadState_SetAsyncExc 9 (Some 50) three_threads = Inr (0, three_threads)"
    by (rule PyThreadState_SetAsyncExc_first_match [OF valid, of 9 "Some 50",
          THEN conjunct2, THEN mp, OF miss])
  have r1: "Py_XDECREF (Some 40) (Py_XNewRef (Some 50) (\<lambda>ob. 1)) = (\<lambda>ob. 1::int)(50 := 2, 40 := 0)"
    by (simp add: Py_XDECREF_def Py_XNewRef_def)
  have r2: "Py_XDECREF (Some 40) (\<lambda>ob. 1) = (\<lambda>ob. 1::int)(40 := 0)"
    by (simp add: Py_XDECREF_def)
  have v: "list_all (\<lambda>u. tstates three_threads u \<noteq> None) (threads three_threads)"
    using valid by (simp only: list_all_iff)
  show ?thesis using v a b by (simp only: r1 r2 simp_thms)
qed

section \<open>The data stack\<close>

lemma double_until_ge:
  "0 < a \<Longrightarrow> need \<le> double_until a need"
proof (induction a need rule: double_until.induct)
  case (1 allocate_size need)
  show ?case
  proof (cases "allocate_size < need")
    case True
    then have "double_until allocate_size need = double_until (allocate_size * 2) need"
      using 1(2) by (subst double_until.simps) simp
    moreover have "need \<le> double_until (allocate_size * 2) need"
      using 1 True by simp
    ultimately show ?thesis by simp
  next
    case False
    then have "double_until allocate_size need = allocate_size"
      by (subst double_until.simps) simp
    then show ?thesis using False by simp
  qed
qed

lemma chunk_limit_above:
  "n + 1 < snd (chunk_limit c
      (double_until DATA_STACK_CHUNK_SIZE (sizeof_pointer * (n + MINIMUM_OVERHEAD))))"
proof -
  have "sizeof_pointer * (n + MINIMUM_OVERHEAD)
          \<le> double_until DATA_STACK_CHUNK_SIZE (sizeof_pointer * (n + MINIMUM_OVERHEAD))"
    by (rule double_until_ge) (simp add: DATA_STACK_CHUNK_SIZE_def)
  then have "8 * (n + 1000)
          \<le> double_until DATA_STACK_CHUNK_SIZE (sizeof_pointer * (n + MINIMUM_OVERHEAD))"
    by (simp add: sizeof_pointer_def MINIMUM_OVERHEAD_def)
  then have "n + 1000
          \<le> double_until DATA_STACK_CHUNK_SIZE (sizeof_pointer * (n + MINIMUM_OVERHEAD)) div 8"
    by simp
  then show ?thesis by (simp add: chunk_limit_def sizeof_pointer_def)
qed

lemma stack_ok_cong:
  "(\<And>x. x \<in> set chain \<Longrightarrow> M' x = M x) \<Longrightarrow> stack_ok M' chain fs t = stack_ok M chain fs t"
proof (induction M chain fs t rule: stack_ok.induct)
  case (1 M fs t)
  then show ?case by simp
next
  case (2 M r fs t)
  then show ?case by simp
next
  case (3 M c c' cs fs t)
  have c: "M' c = M c" and c': "M' c' = M c'" using 3(2) by simp_all
  have IH: "stack_ok M' (c' # cs) fs2 (chunk_top ch') = stack_ok M (c' # cs) fs2 (chunk_top ch')"
    for fs2 and ch' :: PyStackChunk
    by (rule 3(1)) (simp add: 3(2))
  show ?case by (simp add: c c' IH)
qed

lemma stack_ok_last:
  "stack_ok M chain fs t \<Longrightarrow> \<exists>ch. M (last chain) = Some ch \<and> previous ch = None"
  by (induction M chain fs t rule: stack_ok.induct) auto

lemma stack_ok_head:
  "stack_ok M (c # cs) fs t \<Longrightarrow> c \<notin> set cs"
  by (cases cs) auto

lemma stack_ok_top_positive:
  "stack_ok M (c # cs) fs t \<Longrightarrow> 0 < t"
  by (cases cs) auto

lemma stack_ok_head_top:
  assumes "stack_ok M (c # cs) fs t" and "M c = Some ch"
  shows "stack_ok (M(c \<mapsto> ch\<lparr>chunk_top := k\<rparr>)) (c # cs) fs t"
proof (cases cs)
  case Nil
  then show ?thesis using assms by simp
next
  case (Cons c' cs')
  from assms(1) obtain ch' fs1 fs2 where
    h: "previous ch = Some c'" "c \<notin> set (c' # cs')" "M c' = Some ch'"
       "fs = fs1 @ (c, 0) # fs2" "\<forall>f \<in> set fs1. fst f = c"
       "sorted_wrt (\<ge>) (t # map snd fs1 @ [1])"
       "chunk_top ch' < snd (chunk_limit c' (chunk_size ch'))"
       "stack_ok M (c' # cs') fs2 (chunk_top ch')"
    using assms(2) unfolding Cons by auto
  have "stack_ok (M(c \<mapsto> ch\<lparr>chunk_top := k\<rparr>)) (c' # cs') fs2 (chunk_top ch')
          = stack_ok M (c' # cs') fs2 (chunk_top ch')"
    by (rule stack_ok_cong) (use h(2) in auto)
  then have rec: "stack_ok (M(c \<mapsto> ch\<lparr>chunk_top := k\<rparr>)) (c' # cs') fs2 (chunk_top ch')"
    using h(8) by simp
  have c': "(M(c \<mapsto> ch\<lparr>chunk_top := k\<rparr>)) c' = Some ch'"
    using h(2,3) by auto
  show ?thesis
    unfolding Cons stack_ok.simps
    apply (rule exI [of _ "ch\<lparr>chunk_top := k\<rparr>"])
    apply (rule exI [of _ ch'])
    apply (rule exI [of _ fs1])
    apply (rule exI [of _ fs2])
    using h(1,2,4,5,6,7) c' rec by simp
qed

lemma stack_ok_push_frame:
  assumes "stack_ok M (c # cs) fs t"
  shows "stack_ok M (c # cs) ((c, t) # fs) (t + n)"
proof (cases cs)
  case Nil
  then show ?thesis using assms by auto
next
  case (Cons c' cs')
  from assms(1) obtain ch ch' fs1 fs2 where
    h: "M c = Some ch" "previous ch = Some c'" "c \<notin> set (c' # cs')" "M c' = Some ch'"
       "fs = fs1 @ (c, 0) # fs2" "\<forall>f \<in> set fs1. fst f = c"
       "sorted_wrt (\<ge>) (t # map snd fs1 @ [1])"
       "chunk_top ch' < snd (chunk_limit c' (chunk_size ch'))"
       "stack_ok M (c' # cs') fs2 (chunk_top ch')"
    unfolding Cons by auto
  have s: "sorted_wrt (\<ge>) ((t + n) # map snd ((c, t) # fs1) @ [1])"
    using h(7) by auto
  show ?thesis
    unfolding Cons stack_ok.simps
    apply (rule exI [of _ ch])
    apply (rule exI [of _ ch'])
    apply (rule exI [of _ "(c, t) # fs1"])
    apply (rule exI [of _ fs2])
    using h(1,2,3,4,5,6,8,9) s by simp
qed

lemma stack_ok_pop_frame:
  assumes "stack_ok M (c # cs) (f # fs) t" and "f \<noteq> (c, 0)"
  shows "\<exists>i. f = (c, i) \<and> i \<le> t \<and> stack_ok M (c # cs) fs i"
proof (cases cs)
  case Nil
  then show ?thesis using assms by (cases f) auto
next
  case (Cons c' cs')
  from assms(1) obtain ch ch' fs1 fs2 where
    h: "M c = Some ch" "previous ch = Some c'" "c \<notin> set (c' # cs')" "M c' = Some ch'"
       "f # fs = fs1 @ (c, 0) # fs2" "\<forall>f \<in> set fs1. fst f = c"
       "sorted_wrt (\<ge>) (t # map snd fs1 @ [1])"
       "chunk_top ch' < snd (chunk_limit c' (chunk_size ch'))"
       "stack_ok M (c' # cs') fs2 (chunk_top ch')"
    unfolding Cons by auto
  from h(5) assms(2) obtain fs1' where fs1: "fs1 = f # fs1'" and fs: "fs = fs1' @ (c, 0) # fs2"
    by (cases fs1) auto
  have f: "f = (c, snd f)" using h(6) fs1 by (cases f) auto
  have s: "sorted_wrt (\<ge>) (snd f # map snd fs1' @ [1])" and le: "snd f \<le> t"
    using h(7) fs1 by simp_all
  have "stack_ok M (c # c' # cs') fs (snd f)"
    unfolding stack_ok.simps
    apply (rule exI [of _ ch])
    apply (rule exI [of _ ch'])
    apply (rule exI [of _ fs1'])
    apply (rule exI [of _ fs2])
    using h(1,2,3,4,6,8,9) fs fs1 s by simp
  then show ?thesis using f le unfolding Cons by blast
qed

lemma stack_ok_pop_chunk:
  assumes "stack_ok M (c # cs) ((c, 0) # fs) t"
  shows "\<exists>ch c' cs' ch'. cs = c' # cs' \<and> M c = Some ch \<and> previous ch = Some c'
           \<and> M c' = Some ch' \<and> c \<notin> set cs
           \<and> chunk_top ch' < snd (chunk_limit c' (chunk_size ch'))
           \<and> stack_ok M (c' # cs') fs (chunk_top ch')"
proof (cases cs)
  case Nil
  then show ?thesis using assms by auto
next
  case (Cons c' cs')
  from assms(1) obtain ch ch' fs1 fs2 where
    h: "M c = Some ch" "previous ch = Some c'" "c \<notin> set (c' # cs')" "M c' = Some ch'"
       "(c, 0) # fs = fs1 @ (c, 0) # fs2" "\<forall>f \<in> set fs1. fst f = c"
       "sorted_wrt (\<ge>) (t # map snd fs1 @ [1])"
       "chunk_top ch' < snd (chunk_limit c' (chunk_size ch'))"
       "stack_ok M (c' # cs') fs2 (chunk_top ch')"
    unfolding Cons by auto
  have "fs1 = []"
  proof (cases fs1)
    case Nil
    then show ?thesis .
  next
    case (Cons g gs)
    then have "g = (c, 0)" using h(5) by simp
    then show ?thesis using h(7) Cons by force
  qed
  then have "fs = fs2" using h(5) by simp
  then show ?thesis using h(1,2,3,4,8,9) Cons by simp
qed

lemma stack_ok_push_chunk:
  assumes ok: "stack_ok M (c # cs) fs t" and c: "M c = Some ch" and a: "a \<notin> set (c # cs)"
    and n: "0 < n" and t: "t < snd (chunk_limit c (chunk_size ch))"
  shows "stack_ok (M(a \<mapsto> \<lparr>previous = Some c, chunk_size = sz, chunk_top = 0\<rparr>,
                     c \<mapsto> ch\<lparr>chunk_top := t\<rparr>))
           (a # c # cs) ((a, 0) # fs) n"
proof -
  let ?new = "\<lparr>previous = Some c, chunk_size = sz, chunk_top = 0\<rparr>"
  let ?M1 = "M(c \<mapsto> ch\<lparr>chunk_top := t\<rparr>)"
  let ?M2 = "M(a \<mapsto> ?new, c \<mapsto> ch\<lparr>chunk_top := t\<rparr>)"
  have ok1: "stack_ok ?M1 (c # cs) fs t"
    by (rule stack_ok_head_top [OF ok c])
  have "stack_ok ?M2 (c # cs) fs t = stack_ok ?M1 (c # cs) fs t"
    by (rule stack_ok_cong) (use a in auto)
  then have ok2: "stack_ok ?M2 (c # cs) fs (chunk_top (ch\<lparr>chunk_top := t\<rparr>))"
    using ok1 by simp
  have ac: "a \<noteq> c" using a by auto
  show ?thesis
    unfolding stack_ok.simps
    apply (rule exI [of _ ?new])
    apply (rule exI [of _ "ch\<lparr>chunk_top := t\<rparr>"])
    apply (rule exI [of _ "[]"])
    apply (rule exI [of _ fs])
    using ok2 a ac n t by (simp add: chunk_limit_def)
qed

lemma datastack_invI:
  assumes "datastack_chunk tstate = Some c" and "datastack_top tstate = Some (c, t)"
    and "map_of m c = Some ch"
    and "datastack_limit tstate = Some (chunk_limit c (chunk_size ch))"
    and "t < snd (chunk_limit c (chunk_size ch))" and "last (c # cs) = r"
    and "stack_ok (map_of m) (c # cs) fs t" and "dom (map_of m) = set (c # cs)"
  shows "datastack_inv r (tstate, m, fs)"
  unfolding datastack_inv_def prod.case
  apply (rule exI [of _ c])
  apply (rule exI [of _ cs])
  apply (rule exI [of _ t])
  apply (rule exI [of _ ch])
  using assms by (intro conjI)

lemma datastack_inv_root_alive:
  assumes "datastack_inv r (tstate, m, fs)"
  shows "root_alive r m"
proof -
  from assms obtain c cs t where "last (c # cs) = r" "stack_ok (map_of m) (c # cs) fs t"
    unfolding datastack_inv_def by auto
  then show ?thesis
    using stack_ok_last [of "map_of m" "c # cs" fs t] by (auto simp add: root_alive_def)
qed

lemma PushFrame_first:
  assumes "datastack_chunk tstate = None" and "datastack_top tstate = None"
    and "datastack_limit tstate = None"
  shows "\<exists>tstate1 m1. PyThreadState_PushFrame (Some r) n (tstate, []) = (Some (r, 1), tstate1, m1)
           \<and> datastack_inv r (tstate1, m1, [(r, 1)])"
proof -
  let ?sz = "double_until DATA_STACK_CHUNK_SIZE (sizeof_pointer * (n + MINIMUM_OVERHEAD))"
  let ?new = "\<lparr>previous = None, chunk_size = ?sz, chunk_top = 0\<rparr>"
  let ?ts = "tstate\<lparr>datastack_chunk := Some r,
                     datastack_limit := Some (chunk_limit r ?sz),
                     datastack_top := Some (r, 1 + n)\<rparr>"
  have push: "PyThreadState_PushFrame (Some r) n (tstate, []) = (Some (r, 1), ?ts, [(r, ?new)])"
    using assms(1,2)
    by (simp add: PyThreadState_PushFrame_def PyThreadState_HasStackSpace_def push_chunk_def
        allocate_chunk_def Let_def)
  have ok: "stack_ok (map_of [(r, ?new)]) [r] [(r, 1)] (1 + n)"
    by simp
  have lim: "1 + n < snd (chunk_limit r ?sz)"
    using chunk_limit_above [of n r] by simp
  have "datastack_inv r (?ts, [(r, ?new)], [(r, 1)])"
    by (rule datastack_invI [where c = r and cs = "[]" and t = "1 + n" and ch = ?new,
          OF _ _ _ _ _ _ ok])
       (use lim in simp_all)
  then show ?thesis using push by blast
qed

lemma PushFrame_inv:
  assumes inv: "datastack_inv r (tstate, m, fs)"
    and wf: "\<not> (\<not> PyThreadState_HasStackSpace tstate n
                \<and> (case alloc of None \<Rightarrow> False | Some a \<Rightarrow> map_of m a \<noteq> None))"
  shows "case PyThreadState_PushFrame alloc n (tstate, m) of
           (None, tstate1, m1) \<Rightarrow> datastack_inv r (tstate1, m1, fs)
         | (Some f, tstate1, m1) \<Rightarrow> datastack_inv r (tstate1, m1, f # fs)"
proof -
  from inv obtain c cs t ch where
    h: "datastack_chunk tstate = Some c" "datastack_top tstate = Some (c, t)"
       "map_of m c = Some ch"
       "datastack_limit tstate = Some (chunk_limit c (chunk_size ch))"
       "t < snd (chunk_limit c (chunk_size ch))" "last (c # cs) = r"
       "stack_ok (map_of m) (c # cs) fs t" "dom (map_of m) = set (c # cs)"
    unfolding datastack_inv_def by auto
  have space: "PyThreadState_HasStackSpace tstate n
                 \<longleftrightarrow> t + n < snd (chunk_limit c (chunk_size ch))"
    using h(2,4,5) by (auto simp add: PyThreadState_HasStackSpace_def chunk_limit_def)
  show ?thesis
  proof (cases "PyThreadState_HasStackSpace tstate n")
    case True
    have ok: "stack_ok (map_of m) (c # cs) ((c, t) # fs) (t + n)"
      by (rule stack_ok_push_frame [OF h(7)])
    have "datastack_inv r (tstate\<lparr>datastack_top := Some (c, t + n)\<rparr>, m, (c, t) # fs)"
      by (rule datastack_invI [where c = c and cs = cs and t = "t + n" and ch = ch,
            OF _ _ h(3) _ _ h(6) ok h(8)])
         (use h True space in simp_all)
    then show ?thesis
      using True h(2) by (simp add: PyThreadState_PushFrame_def)
  next
    case False
    then have n: "0 < n" using space h(5) by (cases n) auto
    show ?thesis
    proof (cases alloc)
      case None
      then show ?thesis
        using False inv by (simp add: PyThreadState_PushFrame_def push_chunk_def allocate_chunk_def)
    next
      case (Some a)
      then have fresh: "map_of m a = None" using wf False by simp
      then have "a \<notin> dom (map_of m)" by (simp add: domIff)
      then have a: "a \<notin> set (c # cs)" unfolding h(8) .
      let ?sz = "double_until DATA_STACK_CHUNK_SIZE (sizeof_pointer * (n + MINIMUM_OVERHEAD))"
      let ?new = "\<lparr>previous = Some c, chunk_size = ?sz, chunk_top = 0\<rparr>"
      let ?m2 = "AList.map_entry c (\<lambda>ch. ch\<lparr>chunk_top := t\<rparr>) (AList.update a ?new m)"
      let ?ts = "tstate\<lparr>datastack_chunk := Some a,
                         datastack_limit := Some (chunk_limit a ?sz),
                         datastack_top := Some (a, n)\<rparr>"
      have ac: "a \<noteq> c" using a by auto
      have M2: "map_of ?m2 = (map_of m)(a \<mapsto> ?new, c \<mapsto> ch\<lparr>chunk_top := t\<rparr>)"
        using ac h(3) by (simp add: AList.map_of_map_entry AList.update_conv')
      have ok: "stack_ok (map_of ?m2) (a # c # cs) ((a, 0) # fs) n"
        unfolding M2 by (rule stack_ok_push_chunk [OF h(7) h(3) a n h(5)])
      have dom: "dom (map_of ?m2) = set (a # c # cs)"
        unfolding M2 using h(8) by auto
      have new: "map_of ?m2 a = Some ?new"
        unfolding M2 using ac by simp
      have lim: "n < snd (chunk_limit a ?sz)"
        using chunk_limit_above [of n a] by simp
      have "datastack_inv r (?ts, ?m2, (a, 0) # fs)"
        by (rule datastack_invI [where c = a and cs = "c # cs" and t = n and ch = ?new,
              OF _ _ new _ _ _ ok dom])
           (use h(6) lim in simp_all)
      moreover have "PyThreadState_PushFrame alloc n (tstate, m) = (Some (a, 0), ?ts, ?m2)"
        using False Some h(1,2)
        by (simp add: PyThreadState_PushFrame_def push_chunk_def allocate_chunk_def Let_def)
      ultimately show ?thesis by simp
    qed
  qed
qed

lemma PopFrame_inv:
  assumes inv: "datastack_inv r (tstate, m, f # fs)"
  shows "\<exists>tstate1 m1. PyThreadState_PopFrame f (tstate, m) = Inr (tstate1, m1)
           \<and> datastack_inv r (tstate1, m1, fs)"
proof -
  from inv obtain c cs t ch where
    h: "datastack_chunk tstate = Some c" "datastack_top tstate = Some (c, t)"
       "map_of m c = Some ch"
       "datastack_limit tstate = Some (chunk_limit c (chunk_size ch))"
       "t < snd (chunk_limit c (chunk_size ch))" "last (c # cs) = r"
       "stack_ok (map_of m) (c # cs) (f # fs) t" "dom (map_of m) = set (c # cs)"
    unfolding datastack_inv_def by auto
  show ?thesis
  proof (cases "f = (c, 0)")
    case True
    from stack_ok_pop_chunk [OF h(7) [unfolded True]] obtain ch0 c' cs' ch' where
      p: "cs = c' # cs'" "map_of m c = Some ch0" "previous ch0 = Some c'"
         "map_of m c' = Some ch'" "c \<notin> set cs"
         "chunk_top ch' < snd (chunk_limit c' (chunk_size ch'))"
         "stack_ok (map_of m) (c' # cs') fs (chunk_top ch')"
      by blast
    let ?ts = "tstate\<lparr>datastack_top := Some (c', chunk_top ch'), datastack_chunk := Some c',
                       datastack_limit := Some (chunk_limit c' (chunk_size ch'))\<rparr>"
    have "stack_ok (map_of (AList.delete c m)) (c' # cs') fs (chunk_top ch')
            = stack_ok (map_of m) (c' # cs') fs (chunk_top ch')"
      by (rule stack_ok_cong) (use p(1,5) in \<open>auto simp add: AList.delete_conv'\<close>)
    then have ok: "stack_ok (map_of (AList.delete c m)) (c' # cs') fs (chunk_top ch')"
      using p(7) by simp
    have dom: "dom (map_of (AList.delete c m)) = set (c' # cs')"
      using h(8) p(1,5) by (auto simp add: AList.delete_conv')
    have c': "map_of (AList.delete c m) c' = Some ch'"
      using p(1,4,5) by (auto simp add: AList.delete_conv')
    have "datastack_inv r (?ts, AList.delete c m, fs)"
      by (rule datastack_invI [where c = c' and cs = cs' and t = "chunk_top ch'" and ch = ch',
            OF _ _ c' _ p(6) _ ok dom])
         (use h(6) p(1) in simp_all)
    moreover have "PyThreadState_PopFrame f (tstate, m) = Inr (?ts, AList.delete c m)"
      using True h(1) p(2,3,4) by (simp add: PyThreadState_PopFrame_def)
    ultimately show ?thesis by blast
  next
    case False
    from stack_ok_pop_frame [OF h(7) False] obtain i where
      i: "f = (c, i)" "i \<le> t" "stack_ok (map_of m) (c # cs) fs i"
      by blast
    have "datastack_inv r (tstate\<lparr>datastack_top := Some f\<rparr>, m, fs)"
      by (rule datastack_invI [where c = c and cs = cs and t = i and ch = ch,
            OF _ _ h(3) _ _ h(6) i(3) h(8)])
         (use i(1,2) h in simp_all)
    moreover have "PyThreadState_PopFrame f (tstate, m) = Inr (tstate\<lparr>datastack_top := Some f\<rparr>, m)"
      using False h(1) by (simp add: PyThreadState_PopFrame_def)
    ultimately show ?thesis by blast
  qed
qed

lemma run_frames_inv:
  "datastack_inv r st \<Longrightarrow>
     run_frames ops st = Inl Ill_formed
     \<or> (\<exists>st1. run_frames ops st = Inr st1 \<and> datastack_inv r st1)"
proof (induction ops arbitrary: st)
  case Nil
  then show ?case by simp
next
  case (Cons op ops)
  obtain tstate m fs where st: "st = (tstate, m, fs)" by (cases st) auto
  show ?case
  proof (cases op)
    case (Push n alloc)
    show ?thesis
    proof (cases "\<not> PyThreadState_HasStackSpace tstate n
                   \<and> (case alloc of None \<Rightarrow> False | Some a \<Rightarrow> map_of m a \<noteq> None)")
      case True
      then show ?thesis unfolding st Push by simp
    next
      case False
      obtain res tstate1 m1 where
        push: "PyThreadState_PushFrame alloc n (tstate, m) = (res, tstate1, m1)"
        by (cases "PyThreadState_PushFrame alloc n (tstate, m)") auto
      from PushFrame_inv [OF Cons.prems(1) [unfolded st] False, unfolded push]
      have inv1: "datastack_inv r (tstate1, m1, case res of None \<Rightarrow> fs | Some f \<Rightarrow> f # fs)"
        by (cases res) auto
      have "run_frames (op # ops) st
              = run_frames ops (tstate1, m1, case res of None \<Rightarrow> fs | Some f \<Rightarrow> f # fs)"
        unfolding st Push using False push by (cases res) auto
      then show ?thesis using Cons.IH [OF inv1] by simp
    qed
  next
    case Pop
    show ?thesis
    proof (cases fs)
      case Nil
      then show ?thesis unfolding st Pop by simp
    next
      case (Cons f fs')
      from PopFrame_inv [OF Cons.prems(1) [unfolded st Cons]] obtain tstate1 m1 where
        pop: "PyThreadState_PopFrame f (tstate, m) = Inr (tstate1, m1)"
        and inv1: "datastack_inv r (tstate1, m1, fs')"
        by blast
      have "run_frames (op # ops) st = run_frames ops (tstate1, m1, fs')"
        unfolding st Pop Cons using pop by simp
      then show ?thesis using Cons.IH [OF inv1] by simp
    qed
  qed
qed

text \<open>
  Claim C5.  Take a thread state whose data stack is empty, as \<^verbatim>\<open>init_threadstate\<close>
  leaves it, and a well-nested run of \<^verbatim>\<open>_PyThreadState_PushFrame\<close> and
  \<^verbatim>\<open>_PyThreadState_PopFrame\<close> on it that starts with a push whose chunk \<open>r\<close> the
  allocator grants: \<open>r\<close> is the root chunk, and the frame starts at its index 1.  The
  frames have any sizes that the arithmetic of \<^verbatim>\<open>push_chunk\<close> can take.  Then no pop
  of the run fails the assertion that the chunk it frees has a previous chunk, nor the
  assertion that the thread state has a chunk, no call uses a pointer to a chunk that is
  not allocated, and when the run ends the root chunk \<open>r\<close> is still allocated and still
  has no previous chunk: it was not freed.
\<close>

theorem PopFrame_never_frees_root:
  assumes "datastack_chunk tstate = None" and "datastack_top tstate = None"
    and "datastack_limit tstate = None"
    and "frame_sizes_ok (Push n (Some r) # ops)"
  shows "(\<forall>a. run_frames (Push n (Some r) # ops) (tstate, [], []) \<noteq> Inl (Failed a))
         \<and> run_frames (Push n (Some r) # ops) (tstate, [], []) \<noteq> Inl Invalid_pointer
         \<and> (\<forall>tstate1 m fs.
               run_frames (Push n (Some r) # ops) (tstate, [], []) = Inr (tstate1, m, fs)
               \<longrightarrow> root_alive r m \<and> datastack_chunk tstate1 \<noteq> None)"
proof -
  from PushFrame_first [OF assms(1,2,3), of r n] obtain tstate1 m1 where
    push: "PyThreadState_PushFrame (Some r) n (tstate, []) = (Some (r, 1), tstate1, m1)"
    and inv1: "datastack_inv r (tstate1, m1, [(r, 1)])"
    by blast
  have run: "run_frames (Push n (Some r) # ops) (tstate, [], [])
               = run_frames ops (tstate1, m1, [(r, 1)])"
    using push by simp
  from run_frames_inv [OF inv1, of ops]
  show ?thesis
  proof
    assume "run_frames ops (tstate1, m1, [(r, 1)]) = Inl Ill_formed"
    then show ?thesis unfolding run by simp
  next
    assume "\<exists>st1. run_frames ops (tstate1, m1, [(r, 1)]) = Inr st1 \<and> datastack_inv r st1"
    then obtain st1 where
      st1: "run_frames ops (tstate1, m1, [(r, 1)]) = Inr st1" "datastack_inv r st1"
      by blast
    obtain tstate2 m2 fs2 where s: "st1 = (tstate2, m2, fs2)" by (cases st1) auto
    have "root_alive r m2"
      using datastack_inv_root_alive st1(2) unfolding s by blast
    moreover have "datastack_chunk tstate2 \<noteq> None"
      using st1(2) unfolding s datastack_inv_def by auto
    ultimately show ?thesis unfolding run st1(1) s by simp
  qed
qed

theorem PopFrame_never_frees_root_witness:
  "frame_sizes_ok [Push 5 (Some 100), Push 3000 (Some 200), Pop, Push 3000 (Some 200), Pop, Pop]
   \<and> run_frames [Push 5 (Some 100), Push 3000 (Some 200), Pop, Push 3000 (Some 200), Pop, Pop]
         (bound_threadstate 1 1 None, [], [])
       = Inr ((bound_threadstate 1 1 None)
                \<lparr>datastack_chunk := Some 100, datastack_top := Some (100, 1),
                 datastack_limit := Some (100, 2045)\<rparr>,
              [(100, \<lparr>previous = None, chunk_size = 16384, chunk_top = 6\<rparr>)], [])
   \<and> root_alive 100 [(100, \<lparr>previous = None, chunk_size = 16384, chunk_top = 6\<rparr>)]"
proof -
  let ?ops = "[Push 3000 (Some 200), Pop, Push 3000 (Some 200), Pop, Pop]"
  have sizes: "frame_sizes_ok (Push 5 (Some 100) # ?ops)"
    by (simp add: frame_size_ok_def sizeof_pointer_def MINIMUM_OVERHEAD_def INT_MAX_def)
  have empty: "datastack_chunk (bound_threadstate 1 1 None) = None"
    "datastack_top (bound_threadstate 1 1 None) = None"
    "datastack_limit (bound_threadstate 1 1 None) = None"
    by (simp_all add: bound_threadstate_def PyThreadState_INIT_def)
  have run: "run_frames (Push 5 (Some 100) # ?ops) (bound_threadstate 1 1 None, [], [])
       = Inr ((bound_threadstate 1 1 None)
                \<lparr>datastack_chunk := Some 100, datastack_top := Some (100, 1),
                 datastack_limit := Some (100, 2045)\<rparr>,
              [(100, \<lparr>previous = None, chunk_size = 16384, chunk_top = 6\<rparr>)], [])"
    by (simp add: PyThreadState_PushFrame_def PyThreadState_HasStackSpace_def push_chunk_def
        allocate_chunk_def chunk_limit_def DATA_STACK_CHUNK_SIZE_def MINIMUM_OVERHEAD_def
        sizeof_pointer_def PyThreadState_PopFrame_def double_until.simps Let_def
        bound_threadstate_def PyThreadState_INIT_def)
  from PopFrame_never_frees_root [OF empty sizes] run
  have "root_alive 100 [(100, \<lparr>previous = None, chunk_size = 16384, chunk_top = 6\<rparr>)]"
    by simp
  then show ?thesis using sizes run by simp
qed

section \<open>Ensure and Release\<close>

lemma Ensure_held:
  assumes "gilstate_tss_get s = Some t" and "current_fast_get s = Some t"
    and "tstates s t = Some ts" and "gilstate_counter ts < INT_MAX"
  shows "PyGILState_Ensure alloc ident native s =
           Inr (PyGILState_LOCKED,
                s\<lparr>tstates := (tstates s)(t \<mapsto> ts\<lparr>gilstate_counter := gilstate_counter ts + 1\<rparr>)\<rparr>)"
  using assms by (simp add: PyGILState_Ensure_def holds_gil_def tstate_update_def)

lemma Release_locked:
  assumes "gilstate_tss_get s = Some t" and "current_fast_get s = Some t"
    and "tstates s t = Some ts" and "1 < gilstate_counter ts"
  shows "PyGILState_Release PyGILState_LOCKED s =
           Inr (s\<lparr>tstates := (tstates s)(t \<mapsto> ts\<lparr>gilstate_counter := gilstate_counter ts - 1\<rparr>)\<rparr>)"
  using assms
  by (simp add: PyGILState_Release_def holds_gil_def tstate_update_def INT_MIN_def Let_def)

lemma ensure_n_held:
  assumes "gilstate_tss_get s = Some t" and "current_fast_get s = Some t"
    and "tstates s t = Some ts" and "gilstate_counter ts + int n \<le> INT_MAX"
  shows "ensure_n n alloc ident native s =
           Inr (replicate n PyGILState_LOCKED,
                s\<lparr>tstates := (tstates s)(t \<mapsto> ts\<lparr>gilstate_counter := gilstate_counter ts + int n\<rparr>)\<rparr>)"
  using assms
proof (induction n arbitrary: s ts)
  case 0
  then show ?case by (simp add: map_upd_triv)
next
  case (Suc n)
  let ?ts1 = "ts\<lparr>gilstate_counter := gilstate_counter ts + 1\<rparr>"
  let ?s1 = "s\<lparr>tstates := (tstates s)(t \<mapsto> ?ts1)\<rparr>"
  have e: "PyGILState_Ensure alloc ident native s = Inr (PyGILState_LOCKED, ?s1)"
    by (rule Ensure_held) (use Suc.prems in auto)
  let ?s2 = "s\<lparr>tstates := (tstates s)(t \<mapsto> ts\<lparr>gilstate_counter := gilstate_counter ts + int (Suc n)\<rparr>)\<rparr>"
  have "ensure_n n alloc ident native ?s1 =
          Inr (replicate n PyGILState_LOCKED,
               ?s1\<lparr>tstates := (tstates ?s1)(t \<mapsto> ?ts1\<lparr>gilstate_counter := gilstate_counter ?ts1 + int n\<rparr>)\<rparr>)"
    by (rule Suc.IH) (use Suc.prems in \<open>auto simp add: gilstate_tss_get_def current_fast_get_def\<close>)
  also have "?s1\<lparr>tstates := (tstates ?s1)(t \<mapsto> ?ts1\<lparr>gilstate_counter := gilstate_counter ?ts1 + int n\<rparr>)\<rparr> = ?s2"
    by (simp add: ac_simps)
  finally have rest: "ensure_n n alloc ident native ?s1 = Inr (replicate n PyGILState_LOCKED, ?s2)" .
  show ?case
    by (simp only: ensure_n.simps e rest sum.case prod.case replicate_append_same replicate.simps)
qed

lemma release_all_locked:
  assumes "gilstate_tss_get s = Some t" and "current_fast_get s = Some t"
    and "tstates s t = Some ts" and "int n < gilstate_counter ts"
  shows "release_all (replicate n PyGILState_LOCKED) s =
           Inr (s\<lparr>tstates := (tstates s)(t \<mapsto> ts\<lparr>gilstate_counter := gilstate_counter ts - int n\<rparr>)\<rparr>)"
  using assms
proof (induction n arbitrary: s ts)
  case 0
  then show ?case by (simp add: map_upd_triv)
next
  case (Suc n)
  let ?ts1 = "ts\<lparr>gilstate_counter := gilstate_counter ts - 1\<rparr>"
  let ?s1 = "s\<lparr>tstates := (tstates s)(t \<mapsto> ?ts1)\<rparr>"
  have r: "PyGILState_Release PyGILState_LOCKED s = Inr ?s1"
    by (rule Release_locked) (use Suc.prems in auto)
  let ?s2 = "s\<lparr>tstates := (tstates s)(t \<mapsto> ts\<lparr>gilstate_counter := gilstate_counter ts - int (Suc n)\<rparr>)\<rparr>"
  have "release_all (replicate n PyGILState_LOCKED) ?s1 =
          Inr (?s1\<lparr>tstates := (tstates ?s1)(t \<mapsto> ?ts1\<lparr>gilstate_counter := gilstate_counter ?ts1 - int n\<rparr>)\<rparr>)"
    by (rule Suc.IH) (use Suc.prems in \<open>auto simp add: gilstate_tss_get_def current_fast_get_def\<close>)
  also have "?s1\<lparr>tstates := (tstates ?s1)(t \<mapsto> ?ts1\<lparr>gilstate_counter := gilstate_counter ?ts1 - int n\<rparr>)\<rparr> = ?s2"
    by (simp add: algebra_simps)
  finally have rest: "release_all (replicate n PyGILState_LOCKED) ?s1 = Inr ?s2" .
  show ?case
    by (simp only: release_all.simps r rest sum.case replicate.simps)
qed

lemma release_all_append:
  "release_all (xs @ ys) s =
     (case release_all xs s of Inl e \<Rightarrow> Inl e | Inr s1 \<Rightarrow> release_all ys s1)"
  by (induction xs arbitrary: s) (auto split: sum.splits)


lemma Ensure_detached:
  assumes "gilstate_tss_get s = Some t" and "current_fast_get s = None" and "\<not> gil_locked s"
    and "tstates s t = Some ts" and "bound_gilstate (status ts)"
    and "gilstate_counter ts < INT_MAX"
  shows "PyGILState_Ensure alloc ident native s =
           Inr (PyGILState_UNLOCKED,
                s\<lparr>Py_tss_tstate := Some t, gil_locked := True,
                   tstates := (tstates s)
                     (t \<mapsto> ts\<lparr>status := (status ts)\<lparr>active := True\<rparr>,
                              attached := Py_THREAD_ATTACHED,
                              gilstate_counter := gilstate_counter ts + 1\<rparr>)\<rparr>)"
  using assms
  by (simp add: PyGILState_Ensure_def holds_gil_def tstate_update_def update_status_def
      PyEval_RestoreThread_def PyThreadState_Attach_def PyEval_AcquireLock_def
      current_fast_set_def current_fast_get_def gilstate_tss_get_def tstate_activate_def
      tstate_try_attach_def)

lemma Release_unlocked:
  assumes "gilstate_tss_get s = Some t" and "current_fast_get s = Some t"
    and "tstates s t = Some ts" and "1 < gilstate_counter ts"
  shows "PyGILState_Release PyGILState_UNLOCKED s =
           Inr (s\<lparr>tstates := (tstates s)
                     (t \<mapsto> ts\<lparr>gilstate_counter := gilstate_counter ts - 1,
                              attached := Py_THREAD_DETACHED,
                              status := (status ts)\<lparr>active := False\<rparr>\<rparr>),
                   Py_tss_tstate := None, gil_locked := False\<rparr>)"
  using assms
  by (simp add: PyGILState_Release_def holds_gil_def tstate_update_def update_status_def
      PyEval_SaveThread_def PyThreadState_Detach_def PyEval_ReleaseLock_def
      current_fast_clear_def current_fast_get_def gilstate_tss_get_def tstate_deactivate_def
      tstate_set_detached_def INT_MIN_def Let_def)


lemma tstate_unchanged:
  assumes "tstates s t = Some ts"
  shows "s\<lparr>tstates := (tstates s)(t \<mapsto> ts)\<rparr> = s"
  using assms by (simp add: map_upd_triv)

lemma nested_held:
  assumes tss: "gilstate_tss_get s = Some t" and cur: "current_fast_get s = Some t"
    and ts: "tstates s t = Some ts" and c: "1 \<le> gilstate_counter ts"
    and max: "gilstate_counter ts + int N \<le> INT_MAX"
  shows "\<exists>tokens s1.
           ensure_n N alloc ident native s = Inr (tokens, s1) \<and> length tokens = N
           \<and> gilstate_counter_of t s1 = gilstate_counter ts + int N \<and> holds_gil t s1
           \<and> release_all tokens s1 = Inr s"
proof -
  let ?ts1 = "ts\<lparr>gilstate_counter := gilstate_counter ts + int N\<rparr>"
  let ?s1 = "s\<lparr>tstates := (tstates s)(t \<mapsto> ?ts1)\<rparr>"
  have e: "ensure_n N alloc ident native s = Inr (replicate N PyGILState_LOCKED, ?s1)"
    by (rule ensure_n_held [OF tss cur ts max])
  have "release_all (replicate N PyGILState_LOCKED) ?s1
          = Inr (?s1\<lparr>tstates := (tstates ?s1)(t \<mapsto> ?ts1\<lparr>gilstate_counter := gilstate_counter ?ts1 - int N\<rparr>)\<rparr>)"
    by (rule release_all_locked)
       (use tss cur c in \<open>simp_all add: gilstate_tss_get_def current_fast_get_def\<close>)
  also have "?s1\<lparr>tstates := (tstates ?s1)(t \<mapsto> ?ts1\<lparr>gilstate_counter := gilstate_counter ?ts1 - int N\<rparr>)\<rparr> = s"
    using ts by (simp add: map_upd_triv)
  finally have r: "release_all (replicate N PyGILState_LOCKED) ?s1 = Inr s" .
  have "gilstate_counter_of t ?s1 = gilstate_counter ts + int N"
    by (simp add: gilstate_counter_of_def)
  moreover have "holds_gil t ?s1"
    using cur by (simp add: holds_gil_def current_fast_get_def)
  ultimately show ?thesis using e r by simp
qed


lemma nested_detached:
  assumes tss: "gilstate_tss_get s = Some t" and cur: "current_fast_get s = None"
    and gil: "\<not> gil_locked s" and ts: "tstates s t = Some ts"
    and bg: "bound_gilstate (status ts)" and act: "\<not> active (status ts)"
    and det: "attached ts = Py_THREAD_DETACHED" and c: "1 \<le> gilstate_counter ts"
    and max: "gilstate_counter ts + int (Suc n) \<le> INT_MAX"
  shows "\<exists>tokens s1.
           ensure_n (Suc n) alloc ident native s = Inr (tokens, s1) \<and> length tokens = Suc n
           \<and> gilstate_counter_of t s1 = gilstate_counter ts + int (Suc n) \<and> holds_gil t s1
           \<and> release_all tokens s1 = Inr s"
proof -
  let ?ts1 = "ts\<lparr>status := (status ts)\<lparr>active := True\<rparr>, attached := Py_THREAD_ATTACHED,
                 gilstate_counter := gilstate_counter ts + 1\<rparr>"
  let ?s1 = "s\<lparr>Py_tss_tstate := Some t, gil_locked := True,
                tstates := (tstates s)(t \<mapsto> ?ts1)\<rparr>"
  let ?ts2 = "?ts1\<lparr>gilstate_counter := gilstate_counter ?ts1 + int n\<rparr>"
  let ?s2 = "?s1\<lparr>tstates := (tstates ?s1)(t \<mapsto> ?ts2)\<rparr>"
  have tss1: "gilstate_tss_get ?s1 = Some t" and cur1: "current_fast_get ?s1 = Some t"
    and ts1: "tstates ?s1 t = Some ?ts1"
    using tss by (simp_all add: gilstate_tss_get_def current_fast_get_def)
  have tss2: "gilstate_tss_get ?s2 = Some t" and cur2: "current_fast_get ?s2 = Some t"
    and ts2: "tstates ?s2 t = Some ?ts2"
    using tss by (simp_all add: gilstate_tss_get_def current_fast_get_def)
  have first: "PyGILState_Ensure alloc ident native s = Inr (PyGILState_UNLOCKED, ?s1)"
    by (rule Ensure_detached [OF tss cur gil ts bg]) (use max in simp)
  have inner: "ensure_n n alloc ident native ?s1 = Inr (replicate n PyGILState_LOCKED, ?s2)"
    by (rule ensure_n_held [OF tss1 cur1 ts1]) (use max in simp)
  have e: "ensure_n (Suc n) alloc ident native s
             = Inr (replicate n PyGILState_LOCKED @ [PyGILState_UNLOCKED], ?s2)"
    by (simp only: ensure_n.simps first inner sum.case prod.case)
  have "release_all (replicate n PyGILState_LOCKED) ?s2
          = Inr (?s2\<lparr>tstates := (tstates ?s2)(t \<mapsto> ?ts2\<lparr>gilstate_counter := gilstate_counter ?ts2 - int n\<rparr>)\<rparr>)"
    by (rule release_all_locked [OF tss2 cur2 ts2]) (use c in simp)
  also have "?s2\<lparr>tstates := (tstates ?s2)(t \<mapsto> ?ts2\<lparr>gilstate_counter := gilstate_counter ?ts2 - int n\<rparr>)\<rparr> = ?s1"
    by simp
  finally have unwind: "release_all (replicate n PyGILState_LOCKED) ?s2 = Inr ?s1" .
  have "PyGILState_Release PyGILState_UNLOCKED ?s1
          = Inr (?s1\<lparr>tstates := (tstates ?s1)
                      (t \<mapsto> ?ts1\<lparr>gilstate_counter := gilstate_counter ?ts1 - 1,
                                 attached := Py_THREAD_DETACHED,
                                 status := (status ?ts1)\<lparr>active := False\<rparr>\<rparr>),
                    Py_tss_tstate := None, gil_locked := False\<rparr>)"
    by (rule Release_unlocked [OF tss1 cur1 ts1]) (use c in simp)
  also have "?s1\<lparr>tstates := (tstates ?s1)
                      (t \<mapsto> ?ts1\<lparr>gilstate_counter := gilstate_counter ?ts1 - 1,
                                 attached := Py_THREAD_DETACHED,
                                 status := (status ?ts1)\<lparr>active := False\<rparr>\<rparr>),
                    Py_tss_tstate := None, gil_locked := False\<rparr> = s"
  proof -
    have st: "(status ts)\<lparr>active := False\<rparr> = status ts"
      using act by (intro tstate_status.equality) simp_all
    have "?ts1\<lparr>gilstate_counter := gilstate_counter ?ts1 - 1,
               attached := Py_THREAD_DETACHED,
               status := (status ?ts1)\<lparr>active := False\<rparr>\<rparr> = ts"
      using det st by (intro PyThreadState.equality) simp_all
    then show ?thesis
      using ts cur gil
      by (intro py_state.equality) (simp_all add: current_fast_get_def map_upd_triv)
  qed
  finally have last: "PyGILState_Release PyGILState_UNLOCKED ?s1 = Inr s" .
  have r: "release_all (replicate n PyGILState_LOCKED @ [PyGILState_UNLOCKED]) ?s2 = Inr s"
    by (simp only: release_all_append unwind sum.case release_all.simps last)
  have "gilstate_counter_of t ?s2 = gilstate_counter ts + int (Suc n)"
    by (simp add: gilstate_counter_of_def)
  moreover have "holds_gil t ?s2"
    by (simp add: holds_gil_def current_fast_get_def)
  ultimately show ?thesis using e r by simp
qed


lemmas gil_defs0 = PyGILState_Ensure_def PyGILState_Release_def holds_gil_def tstate_update_def
  update_status_def PyEval_RestoreThread_def PyThreadState_Attach_def PyEval_AcquireLock_def
  current_fast_set_def current_fast_get_def gilstate_tss_get_def tstate_activate_def
  tstate_try_attach_def PyEval_SaveThread_def PyThreadState_Detach_def PyEval_ReleaseLock_def
  current_fast_clear_def tstate_deactivate_def tstate_set_detached_def INT_MIN_def INT_MAX_def
  new_threadstate_def init_threadstate_def add_threadstate_def bind_tstate_def
  bind_gilstate_tstate_def gilstate_tss_set_def gilstate_tss_clear_def
  PyThreadState_Clear_def PyThreadState_DeleteCurrent_def tstate_delete_common_def
  unbind_gilstate_tstate_def unbind_tstate_def clear_datastack_def free_threadstate_def

lemmas gil_defs = gil_defs0 Py_XDECREF_def

lemma Ensure_unbound:
  assumes "unbound_entry (Some a) s"
  shows "PyGILState_Ensure (Some a) ident native s =
           Inr (PyGILState_UNLOCKED, ensured (new_tstate_address (Some a) s) ident native s)"
proof (cases "threads s = []")
  case True
  have h: "autoTSSkey s = None" "Py_tss_tstate s = None" "\<not> gil_locked s"
    "autoInterpreterState s" "tstates s a = None" "a \<noteq> initial_thread"
    "tstates s initial_thread = Some PyThreadState_INIT"
    using assms True by (simp_all add: unbound_entry_def gilstate_tss_get_def current_fast_get_def)
  show ?thesis
    using h True
    apply (simp add: gil_defs Let_def PyThreadState_INIT_def status_INIT_def calloc_threadstate_def
        new_tstate_address_def ensured_def auto_created_def)
    apply ((intro py_state.equality; simp add: fun_upd_idem)?)
    done
next
  case False
  have h: "autoTSSkey s = None" "Py_tss_tstate s = None" "\<not> gil_locked s"
    "autoInterpreterState s" "tstates s a = None" "a \<noteq> initial_thread"
    using assms by (simp_all add: unbound_entry_def gilstate_tss_get_def current_fast_get_def)
  show ?thesis
    using h False
    apply (simp add: gil_defs Let_def PyThreadState_INIT_def status_INIT_def calloc_threadstate_def
        new_tstate_address_def ensured_def auto_created_def)
    apply ((intro py_state.equality; simp add: fun_upd_idem)?)
    done
qed

lemma Release_last:
  assumes "unbound_entry (Some a) s"
  shows "PyGILState_Release PyGILState_UNLOCKED
           (ensured (new_tstate_address (Some a) s) ident native s)
         = Inr (s\<lparr>next_unique_id := next_unique_id s + 1\<rparr>)"
proof (cases "threads s = []")
  case True
  have h: "autoTSSkey s = None" "Py_tss_tstate s = None" "\<not> gil_locked s"
    "autoInterpreterState s" "tstates s a = None" "a \<noteq> initial_thread"
    "tstates s initial_thread = Some PyThreadState_INIT"
    using assms True by (simp_all add: unbound_entry_def gilstate_tss_get_def current_fast_get_def)
  show ?thesis
    using h True
    apply (simp add: gil_defs Let_def PyThreadState_INIT_def status_INIT_def
        new_tstate_address_def ensured_def auto_created_def)
    apply ((intro py_state.equality; simp add: fun_upd_idem)?)
    done
next
  case False
  have h: "autoTSSkey s = None" "Py_tss_tstate s = None" "\<not> gil_locked s"
    "autoInterpreterState s" "tstates s a = None" "a \<noteq> initial_thread"
    using assms by (simp_all add: unbound_entry_def gilstate_tss_get_def current_fast_get_def)
  show ?thesis
    using h False
    apply (simp add: gil_defs Let_def PyThreadState_INIT_def status_INIT_def
        new_tstate_address_def ensured_def auto_created_def)
    apply ((intro py_state.equality; simp add: fun_upd_idem)?)
    done
qed


text \<open>
  The last Release of a thread state that Ensure has created, when the thread state holds
  objects and a data stack: \<^verbatim>\<open>PyThreadState_Clear\<close> drops the references and calls
  \<^verbatim>\<open>on_delete\<close>, and \<^verbatim>\<open>_PyThreadState_DeleteCurrent\<close> frees the chunks of the
  data stack and the thread state.
\<close>

lemma Release_last_running:
  assumes "unbound_entry (Some a) s"
  shows "PyGILState_Release PyGILState_UNLOCKED
           (running (new_tstate_address (Some a) s) w cs
              (ensured (new_tstate_address (Some a) s) ident native s))
         = Inr (s\<lparr>next_unique_id := next_unique_id s + 1,
                  refcnts := fold Py_XDECREF
                               [dict w, async_exc w, current_exception w, exc_value w,
                                c_profileobj w, c_traceobj w, async_gen_firstiter w,
                                async_gen_finalizer w, tstate_context w] (refcnts s),
                  sys_profiling_threads :=
                    (if c_profilefunc w then sys_profiling_threads s - 1
                     else sys_profiling_threads s),
                  sys_tracing_threads :=
                    (if c_tracefunc w then sys_tracing_threads s - 1
                     else sys_tracing_threads s),
                  on_delete_calls :=
                    (if on_delete w then on_delete_calls s + 1 else on_delete_calls s),
                  chunks := free_chunks (datastack_chunk w) cs\<rparr>)"
proof (cases "threads s = []")
  case True
  have h: "autoTSSkey s = None" "Py_tss_tstate s = None" "\<not> gil_locked s"
    "autoInterpreterState s" "tstates s a = None" "a \<noteq> initial_thread"
    "tstates s initial_thread = Some PyThreadState_INIT"
    using assms True by (simp_all add: unbound_entry_def gilstate_tss_get_def current_fast_get_def)
  show ?thesis
    using h True
    apply (simp add: gil_defs0 Let_def PyThreadState_INIT_def status_INIT_def
        new_tstate_address_def ensured_def auto_created_def running_def holding_def)
    apply ((intro conjI impI py_state.equality; simp add: fun_upd_idem)?)
    done
next
  case False
  have h: "autoTSSkey s = None" "Py_tss_tstate s = None" "\<not> gil_locked s"
    "autoInterpreterState s" "tstates s a = None" "a \<noteq> initial_thread"
    using assms by (simp_all add: unbound_entry_def gilstate_tss_get_def current_fast_get_def)
  show ?thesis
    using h False
    apply (simp add: gil_defs0 Let_def PyThreadState_INIT_def status_INIT_def
        new_tstate_address_def ensured_def auto_created_def running_def holding_def)
    apply ((intro conjI impI py_state.equality; simp add: fun_upd_idem)?)
    done
qed

lemma nested_unbound:
  assumes entry: "unbound_entry (Some a) s" and max: "int (Suc n) \<le> INT_MAX"
  shows "\<exists>tokens s1.
           ensure_n (Suc n) (Some a) ident native s = Inr (tokens, s1) \<and> length tokens = Suc n
           \<and> gilstate_tss_get s1 = Some (new_tstate_address (Some a) s)
           \<and> tstates s1 (new_tstate_address (Some a) s)
               = Some ((auto_created (next_unique_id s + 1) ident native)
                         \<lparr>gilstate_counter := int (Suc n)\<rparr>)
           \<and> holds_gil (new_tstate_address (Some a) s) s1 \<and> gil_locked s1
           \<and> release_all tokens s1 = Inr (s\<lparr>next_unique_id := next_unique_id s + 1\<rparr>)
           \<and> release_all tokens (running (new_tstate_address (Some a) s) w cs s1)
               = Inr (s\<lparr>next_unique_id := next_unique_id s + 1,
                  refcnts := fold Py_XDECREF
                               [dict w, async_exc w, current_exception w, exc_value w,
                                c_profileobj w, c_traceobj w, async_gen_firstiter w,
                                async_gen_finalizer w, tstate_context w] (refcnts s),
                  sys_profiling_threads :=
                    (if c_profilefunc w then sys_profiling_threads s - 1
                     else sys_profiling_threads s),
                  sys_tracing_threads :=
                    (if c_tracefunc w then sys_tracing_threads s - 1
                     else sys_tracing_threads s),
                  on_delete_calls :=
                    (if on_delete w then on_delete_calls s + 1 else on_delete_calls s),
                  chunks := free_chunks (datastack_chunk w) cs\<rparr>)"
proof -
  let ?t = "new_tstate_address (Some a) s"
  let ?ts1 = "auto_created (next_unique_id s + 1) ident native"
  let ?s1 = "ensured ?t ident native s"
  let ?ts2 = "?ts1\<lparr>gilstate_counter := gilstate_counter ?ts1 + int n\<rparr>"
  let ?s2 = "?s1\<lparr>tstates := (tstates ?s1)(?t \<mapsto> ?ts2)\<rparr>"
  have c1: "gilstate_counter ?ts1 = 1"
    by (simp add: auto_created_def)
  have tss1: "gilstate_tss_get ?s1 = Some ?t" and cur1: "current_fast_get ?s1 = Some ?t"
    and ts1: "tstates ?s1 ?t = Some ?ts1" and gil1: "gil_locked ?s1"
    by (simp_all add: ensured_def gilstate_tss_get_def current_fast_get_def)
  have tss2: "gilstate_tss_get ?s2 = Some ?t" and cur2: "current_fast_get ?s2 = Some ?t"
    and ts2: "tstates ?s2 ?t = Some ?ts2" and gil2: "gil_locked ?s2"
    using tss1 cur1 gil1 by (simp_all add: gilstate_tss_get_def current_fast_get_def)
  have first: "PyGILState_Ensure (Some a) ident native s = Inr (PyGILState_UNLOCKED, ?s1)"
    by (rule Ensure_unbound [OF entry])
  have inner: "ensure_n n (Some a) ident native ?s1 = Inr (replicate n PyGILState_LOCKED, ?s2)"
    by (rule ensure_n_held [OF tss1 cur1 ts1]) (use max c1 in simp)
  have e: "ensure_n (Suc n) (Some a) ident native s
             = Inr (replicate n PyGILState_LOCKED @ [PyGILState_UNLOCKED], ?s2)"
    by (simp only: ensure_n.simps first inner sum.case prod.case)
  have "release_all (replicate n PyGILState_LOCKED) ?s2
          = Inr (?s2\<lparr>tstates := (tstates ?s2)(?t \<mapsto> ?ts2\<lparr>gilstate_counter := gilstate_counter ?ts2 - int n\<rparr>)\<rparr>)"
    by (rule release_all_locked [OF tss2 cur2 ts2]) (use c1 in simp)
  also have "?s2\<lparr>tstates := (tstates ?s2)(?t \<mapsto> ?ts2\<lparr>gilstate_counter := gilstate_counter ?ts2 - int n\<rparr>)\<rparr> = ?s1"
    using ts1 by (simp add: map_upd_triv)
  finally have unwind: "release_all (replicate n PyGILState_LOCKED) ?s2 = Inr ?s1" .
  have final: "PyGILState_Release PyGILState_UNLOCKED ?s1
                 = Inr (s\<lparr>next_unique_id := next_unique_id s + 1\<rparr>)"
    by (rule Release_last [OF entry])
  have r: "release_all (replicate n PyGILState_LOCKED @ [PyGILState_UNLOCKED]) ?s2
             = Inr (s\<lparr>next_unique_id := next_unique_id s + 1\<rparr>)"
    by (simp only: release_all_append unwind sum.case release_all.simps final)
  let ?s2r = "running ?t w cs ?s2"
  let ?ts2r = "holding w ?ts2"
  have tss2r: "gilstate_tss_get ?s2r = Some ?t" and cur2r: "current_fast_get ?s2r = Some ?t"
    and ts2r: "tstates ?s2r ?t = Some ?ts2r"
    using tss2 cur2
    by (simp_all add: running_def tstate_update_def gilstate_tss_get_def current_fast_get_def)
  have c2r: "gilstate_counter ?ts2r = 1 + int n"
    using c1 by (simp add: holding_def)
  have "release_all (replicate n PyGILState_LOCKED) ?s2r
          = Inr (?s2r\<lparr>tstates := (tstates ?s2r)(?t \<mapsto> ?ts2r\<lparr>gilstate_counter := gilstate_counter ?ts2r - int n\<rparr>)\<rparr>)"
    by (rule release_all_locked [OF tss2r cur2r ts2r]) (use c2r in simp)
  also have "?s2r\<lparr>tstates := (tstates ?s2r)(?t \<mapsto> ?ts2r\<lparr>gilstate_counter := gilstate_counter ?ts2r - int n\<rparr>)\<rparr>
               = running ?t w cs ?s1"
  proof -
    have "?ts2r\<lparr>gilstate_counter := gilstate_counter ?ts2r - int n\<rparr> = holding w ?ts1"
      using c1 by (simp add: holding_def)
    then show ?thesis
      using ts1 by (simp add: running_def tstate_update_def)
  qed
  finally have unwind_r: "release_all (replicate n PyGILState_LOCKED) ?s2r = Inr (running ?t w cs ?s1)" .
  have final_r: "PyGILState_Release PyGILState_UNLOCKED (running ?t w cs ?s1)
                 = Inr (s\<lparr>next_unique_id := next_unique_id s + 1,
                  refcnts := fold Py_XDECREF
                               [dict w, async_exc w, current_exception w, exc_value w,
                                c_profileobj w, c_traceobj w, async_gen_firstiter w,
                                async_gen_finalizer w, tstate_context w] (refcnts s),
                  sys_profiling_threads :=
                    (if c_profilefunc w then sys_profiling_threads s - 1
                     else sys_profiling_threads s),
                  sys_tracing_threads :=
                    (if c_tracefunc w then sys_tracing_threads s - 1
                     else sys_tracing_threads s),
                  on_delete_calls :=
                    (if on_delete w then on_delete_calls s + 1 else on_delete_calls s),
                  chunks := free_chunks (datastack_chunk w) cs\<rparr>)"
    by (rule Release_last_running [OF entry])
  have rr: "release_all (replicate n PyGILState_LOCKED @ [PyGILState_UNLOCKED]) ?s2r
             = Inr (s\<lparr>next_unique_id := next_unique_id s + 1,
                  refcnts := fold Py_XDECREF
                               [dict w, async_exc w, current_exception w, exc_value w,
                                c_profileobj w, c_traceobj w, async_gen_firstiter w,
                                async_gen_finalizer w, tstate_context w] (refcnts s),
                  sys_profiling_threads :=
                    (if c_profilefunc w then sys_profiling_threads s - 1
                     else sys_profiling_threads s),
                  sys_tracing_threads :=
                    (if c_tracefunc w then sys_tracing_threads s - 1
                     else sys_tracing_threads s),
                  on_delete_calls :=
                    (if on_delete w then on_delete_calls s + 1 else on_delete_calls s),
                  chunks := free_chunks (datastack_chunk w) cs\<rparr>)"
    by (simp only: release_all_append unwind_r sum.case release_all.simps final_r)
  have ts2': "tstates ?s2 ?t = Some (?ts1\<lparr>gilstate_counter := int (Suc n)\<rparr>)"
    using c1 by simp
  have hg: "holds_gil ?t ?s2"
    using cur2 by (simp add: holds_gil_def)
  show ?thesis
    by (intro exI [of _ "replicate n PyGILState_LOCKED @ [PyGILState_UNLOCKED]"] exI [of _ ?s2]
        conjI e tss2 ts2' hg gil2 r rr) simp
qed

text \<open>
  Claim C4.  Let an OS thread make \<open>N\<close> nested calls of \<^verbatim>\<open>PyGILState_Ensure\<close>,
  \<open>N\<close> at least 1, and then the \<open>N\<close> matching calls of \<^verbatim>\<open>PyGILState_Release\<close>,
  innermost first.

  If the thread has a thread state bound, whether it holds the GIL with it or not, all
  calls return; after the calls of Ensure the counter of the thread state is its value
  at entry plus \<open>N\<close> and the thread holds the GIL; after the calls of Release the state
  is the state at entry: the same counter, and the GIL held or free as it was.

  If the thread has no thread state, the first Ensure creates one; after the calls of
  Ensure it is bound and current, the GIL is held, and its counter is \<open>N\<close>, so it was
  counted from 0.  After the calls of Release the state is the state at entry but for
  the counter of thread-state ids: the thread state has left the interpreter's list and
  its memory is freed, no thread state is bound or current, and the GIL is free again.
  The last Release clears the thread state before it deletes it: whatever the thread
  state holds when the thread calls Release (the thread state \<open>w\<close>) and whatever the
  memory \<open>cs\<close> of the stack chunks is then, the calls of Release drop one reference to
  each object that the thread state holds, take the thread off the counts of profiling
  and tracing threads, call its \<^verbatim>\<open>on_delete\<close> callback, and free the chunks of its
  data stack.
\<close>

theorem PyGILState_nested_pairs:
  assumes "1 \<le> N"
  shows "(bound_entry t s \<and> gilstate_counter_of t s + int N \<le> INT_MAX \<longrightarrow>
            (\<exists>tokens s1.
               ensure_n N alloc ident native s = Inr (tokens, s1) \<and> length tokens = N
               \<and> gilstate_counter_of t s1 = gilstate_counter_of t s + int N \<and> holds_gil t s1
               \<and> release_all tokens s1 = Inr s))
         \<and> (unbound_entry alloc s \<and> int N \<le> INT_MAX \<longrightarrow>
            (\<exists>tokens s1.
               ensure_n N alloc ident native s = Inr (tokens, s1) \<and> length tokens = N
               \<and> gilstate_tss_get s1 = Some (new_tstate_address alloc s)
               \<and> tstates s1 (new_tstate_address alloc s)
                   = Some ((auto_created (next_unique_id s + 1) ident native)
                             \<lparr>gilstate_counter := int N\<rparr>)
               \<and> holds_gil (new_tstate_address alloc s) s1 \<and> gil_locked s1
               \<and> release_all tokens s1 = Inr (s\<lparr>next_unique_id := next_unique_id s + 1\<rparr>)
               \<and> release_all tokens (running (new_tstate_address alloc s) w cs s1)
                   = Inr (s\<lparr>next_unique_id := next_unique_id s + 1,
                           refcnts := fold Py_XDECREF
                                        [dict w, async_exc w, current_exception w, exc_value w,
                                         c_profileobj w, c_traceobj w, async_gen_firstiter w,
                                         async_gen_finalizer w, tstate_context w] (refcnts s),
                           sys_profiling_threads :=
                             (if c_profilefunc w then sys_profiling_threads s - 1
                              else sys_profiling_threads s),
                           sys_tracing_threads :=
                             (if c_tracefunc w then sys_tracing_threads s - 1
                              else sys_tracing_threads s),
                           on_delete_calls :=
                             (if on_delete w then on_delete_calls s + 1 else on_delete_calls s),
                           chunks := free_chunks (datastack_chunk w) cs\<rparr>)))"
proof (intro conjI impI)
  obtain n where N: "N = Suc n" using assms by (cases N) auto
  {
    assume h: "bound_entry t s \<and> gilstate_counter_of t s + int N \<le> INT_MAX"
    then obtain ts where ts: "tstates s t = Some ts" and tss: "gilstate_tss_get s = Some t"
      and c: "1 \<le> gilstate_counter ts"
      and cases: "current_fast_get s = Some t
                  \<or> (current_fast_get s = None \<and> \<not> gil_locked s
                     \<and> bound_gilstate (status ts) \<and> \<not> active (status ts)
                     \<and> attached ts = Py_THREAD_DETACHED)"
      by (auto simp add: bound_entry_def split: option.splits)
    have cnt: "gilstate_counter_of t s = gilstate_counter ts"
      using ts by (simp add: gilstate_counter_of_def)
    have max: "gilstate_counter ts + int N \<le> INT_MAX" using h cnt by simp
    from cases
    show "\<exists>tokens s1.
            ensure_n N alloc ident native s = Inr (tokens, s1) \<and> length tokens = N
            \<and> gilstate_counter_of t s1 = gilstate_counter_of t s + int N \<and> holds_gil t s1
            \<and> release_all tokens s1 = Inr s"
    proof
      assume cur: "current_fast_get s = Some t"
      show ?thesis unfolding cnt by (rule nested_held [OF tss cur ts c max])
    next
      assume d: "current_fast_get s = None \<and> \<not> gil_locked s
                 \<and> bound_gilstate (status ts) \<and> \<not> active (status ts)
                 \<and> attached ts = Py_THREAD_DETACHED"
      show ?thesis
        unfolding cnt N
        by (rule nested_detached [OF tss _ _ ts _ _ _ c]) (use d max N in simp_all)
    qed
  }
  {
    assume h: "unbound_entry alloc s \<and> int N \<le> INT_MAX"
    then obtain a where a: "alloc = Some a"
      by (cases alloc) (auto simp add: unbound_entry_def)
    show "\<exists>tokens s1.
            ensure_n N alloc ident native s = Inr (tokens, s1) \<and> length tokens = N
            \<and> gilstate_tss_get s1 = Some (new_tstate_address alloc s)
            \<and> tstates s1 (new_tstate_address alloc s)
                = Some ((auto_created (next_unique_id s + 1) ident native)
                          \<lparr>gilstate_counter := int N\<rparr>)
            \<and> holds_gil (new_tstate_address alloc s) s1 \<and> gil_locked s1
            \<and> release_all tokens s1 = Inr (s\<lparr>next_unique_id := next_unique_id s + 1\<rparr>)
            \<and> release_all tokens (running (new_tstate_address alloc s) w cs s1)
                = Inr (s\<lparr>next_unique_id := next_unique_id s + 1,
                           refcnts := fold Py_XDECREF
                                        [dict w, async_exc w, current_exception w, exc_value w,
                                         c_profileobj w, c_traceobj w, async_gen_firstiter w,
                                         async_gen_finalizer w, tstate_context w] (refcnts s),
                           sys_profiling_threads :=
                             (if c_profilefunc w then sys_profiling_threads s - 1
                              else sys_profiling_threads s),
                           sys_tracing_threads :=
                             (if c_tracefunc w then sys_tracing_threads s - 1
                              else sys_tracing_threads s),
                           on_delete_calls :=
                             (if on_delete w then on_delete_calls s + 1 else on_delete_calls s),
                           chunks := free_chunks (datastack_chunk w) cs\<rparr>)"
      unfolding a N by (rule nested_unbound) (use h a N in simp_all)
  }
qed

text \<open>
  The theorem for three nested calls: by the OS thread 7, whose thread state at the
  address 1 is detached and has the counter 1; and by an OS thread without thread state,
  for which Ensure creates the thread state at the address 5.  When that thread state holds
  what \<^verbatim>\<open>busy_thread\<close> holds, the calls of Release leave the objects 40 and 41
  with no reference, one call of \<^verbatim>\<open>on_delete\<close>, and no stack chunk.
\<close>

theorem PyGILState_nested_pairs_witness:
  "(\<exists>tokens s1.
      ensure_n 3 None 7 70 (one_thread (Some 1)) = Inr (tokens, s1) \<and> length tokens = 3
      \<and> gilstate_counter_of 1 s1 = 4 \<and> holds_gil 1 s1
      \<and> release_all tokens s1 = Inr (one_thread (Some 1)))
   \<and> (\<exists>tokens s1.
      ensure_n 3 (Some 5) 9 90 (one_thread None) = Inr (tokens, s1) \<and> length tokens = 3
      \<and> gilstate_tss_get s1 = Some 5
      \<and> tstates s1 5 = Some ((auto_created 2 9 90)\<lparr>gilstate_counter := 3\<rparr>)
      \<and> holds_gil 5 s1 \<and> gil_locked s1
      \<and> release_all tokens s1 = Inr ((one_thread None)\<lparr>next_unique_id := 2\<rparr>)
      \<and> release_all tokens (running 5 busy_thread two_chunks s1)
          = Inr ((one_thread None)\<lparr>next_unique_id := 2,
                                     refcnts := (\<lambda>ob. 1)(40 := 0, 41 := 0),
                                     on_delete_calls := 1, chunks := []\<rparr>))"
proof -
  have three: "(1::nat) \<le> 3" by simp
  have b: "bound_entry 1 (one_thread (Some 1))"
    by (simp add: bound_entry_def one_thread_def gilstate_tss_get_def current_fast_get_def
        bound_threadstate_def status_INIT_def PyThreadState_INIT_def initial_thread_def)
  have cnt: "gilstate_counter_of 1 (one_thread (Some 1)) = 1"
    by (simp add: gilstate_counter_of_def one_thread_def bound_threadstate_def
        PyThreadState_INIT_def initial_thread_def)
  have u: "unbound_entry (Some 5) (one_thread None)"
    by (simp add: unbound_entry_def one_thread_def gilstate_tss_get_def current_fast_get_def
        initial_thread_def)
  have addr: "new_tstate_address (Some 5) (one_thread None) = 5"
    by (simp add: new_tstate_address_def one_thread_def)
  have nid: "next_unique_id (one_thread None) + 1 = 2"
    by (simp add: one_thread_def)
  have freed: "free_chunks (datastack_chunk busy_thread) two_chunks = []"
    by (simp add: busy_thread_def two_chunks_def)
  have dropped: "fold Py_XDECREF
                   [dict busy_thread, async_exc busy_thread, current_exception busy_thread,
                    exc_value busy_thread, c_profileobj busy_thread, c_traceobj busy_thread,
                    async_gen_firstiter busy_thread, async_gen_finalizer busy_thread,
                    tstate_context busy_thread] (refcnts (one_thread None))
                 = (\<lambda>ob. 1)(40 := 0, 41 := 0)"
    by (simp add: busy_thread_def PyThreadState_INIT_def Py_XDECREF_def one_thread_def)
  have flags: "\<not> c_profilefunc busy_thread" "\<not> c_tracefunc busy_thread" "on_delete busy_thread"
    by (simp_all add: busy_thread_def PyThreadState_INIT_def)
  have calls: "on_delete_calls (one_thread None) + 1 = 1"
    by (simp add: one_thread_def)
  have pre1: "bound_entry 1 (one_thread (Some 1))
              \<and> gilstate_counter_of 1 (one_thread (Some 1)) + int 3 \<le> INT_MAX"
    using b cnt by (simp add: INT_MAX_def)
  have pre2: "unbound_entry (Some 5) (one_thread None) \<and> int 3 \<le> INT_MAX"
    using u by (simp add: INT_MAX_def)
  note bound_case = PyGILState_nested_pairs [OF three, where t = 1 and s = "one_thread (Some 1)"
        and alloc = None and ident = 7 and native = 70, THEN conjunct1, THEN mp, OF pre1]
  note unbound_case = PyGILState_nested_pairs [OF three, where s = "one_thread None"
        and alloc = "Some 5" and ident = 9 and native = 90 and w = busy_thread
        and cs = two_chunks, THEN conjunct2, THEN mp, OF pre2]
  have "\<exists>tokens s1.
      ensure_n 3 None 7 70 (one_thread (Some 1)) = Inr (tokens, s1) \<and> length tokens = 3
      \<and> gilstate_counter_of 1 s1 = 4 \<and> holds_gil 1 s1
      \<and> release_all tokens s1 = Inr (one_thread (Some 1))"
    using bound_case unfolding cnt by simp
  moreover have "\<exists>tokens s1.
      ensure_n 3 (Some 5) 9 90 (one_thread None) = Inr (tokens, s1) \<and> length tokens = 3
      \<and> gilstate_tss_get s1 = Some 5
      \<and> tstates s1 5 = Some ((auto_created 2 9 90)\<lparr>gilstate_counter := 3\<rparr>)
      \<and> holds_gil 5 s1 \<and> gil_locked s1
      \<and> release_all tokens s1 = Inr ((one_thread None)\<lparr>next_unique_id := 2\<rparr>)
      \<and> release_all tokens (running 5 busy_thread two_chunks s1)
          = Inr ((one_thread None)\<lparr>next_unique_id := 2,
                                     refcnts := (\<lambda>ob. 1)(40 := 0, 41 := 0),
                                     on_delete_calls := 1, chunks := []\<rparr>)"
    using unbound_case unfolding addr nid freed dropped calls by (simp add: flags)
  ultimately show ?thesis by (rule conjI)
qed

end
